theory Spec2Isabelle
  imports Main "HOL-Library.Word" "HOL-Library.Sublist"
begin

section \<open>JavaScript strings\<close>

text \<open>
  A JavaScript string is a sequence of 16-bit code units. \<open>data[i]\<close> is the one-unit
  string at index \<open>i\<close>, or \<open>undefined\<close> when \<open>i\<close> is out of range; comparing it
  with \<open>===\<close> to a string \<open>s\<close> holds exactly when \<open>s\<close> is that one-unit string.
\<close>

type_synonym jschar = "16 word"
type_synonym jsstring = "jschar list"

abbreviation DQ :: jschar where "DQ \<equiv> 0x22"
abbreviation LF :: jschar where "LF \<equiv> 0x0A"
abbreviation CR :: jschar where "CR \<equiv> 0x0D"
abbreviation NUL :: jschar where "NUL \<equiv> 0x00"
abbreviation BOM :: jschar where "BOM \<equiv> 0xFEFF"

definition js :: "string \<Rightarrow> jsstring" where
  \<comment> \<open>an ASCII literal as a JavaScript string\<close>
  "js s = map (\<lambda>c. of_nat (of_char c)) s"

definition js_at :: "'a list \<Rightarrow> nat \<Rightarrow> 'a option" where
  \<comment> \<open>\<open>xs[n]\<close>; \<open>None\<close> is \<open>undefined\<close>\<close>
  "js_at xs n = (if n < length xs then Some (xs ! n) else None)"

definition isWhiteSpace :: "jschar \<Rightarrow> bool" where
  \<comment> \<open>ECMAScript WhiteSpace and LineTerminator, the code units \<open>String.prototype.trim\<close> strips\<close>
  "isWhiteSpace c \<longleftrightarrow>
     c = 0x09 \<or> c = 0x0A \<or> c = 0x0B \<or> c = 0x0C \<or> c = 0x0D \<or> c = 0x20 \<or> c = 0xA0 \<or>
     c = 0x1680 \<or> (0x2000 \<le> c \<and> c \<le> 0x200A) \<or> c = 0x2028 \<or> c = 0x2029 \<or>
     c = 0x202F \<or> c = 0x205F \<or> c = 0x3000 \<or> c = 0xFEFF"

definition js_trim :: "jsstring \<Rightarrow> jsstring" where
  \<comment> \<open>\<open>s.trim()\<close>\<close>
  "js_trim s = rev (dropWhile isWhiteSpace (rev (dropWhile isWhiteSpace s)))"

definition startsWith :: "jsstring \<Rightarrow> jsstring \<Rightarrow> bool" where
  \<comment> \<open>\<open>s.startsWith(p)\<close>\<close>
  "startsWith s p = (take (length p) s = p)"

definition endsWith :: "jsstring \<Rightarrow> jsstring \<Rightarrow> bool" where
  \<comment> \<open>\<open>s.endsWith(p)\<close>\<close>
  "endsWith s p = (length p \<le> length s \<and> drop (length s - length p) s = p)"

fun replace_crlf :: "jsstring \<Rightarrow> jsstring" where
  \<comment> \<open>\<open>s.replace(/\r\n/g, '\n')\<close>\<close>
  "replace_crlf [] = []"
| "replace_crlf [c] = [c]"
| "replace_crlf (c # c' # cs) =
     (if c = CR \<and> c' = LF then LF # replace_crlf cs else c # replace_crlf (c' # cs))"

fun replace_cr :: "jsstring \<Rightarrow> jsstring" where
  \<comment> \<open>\<open>s.replace(/\r/g, '\n')\<close>\<close>
  "replace_cr [] = []"
| "replace_cr (c # cs) = (if c = CR then LF else c) # replace_cr cs"

fun replace_dqdq :: "jsstring \<Rightarrow> jsstring" where
  \<comment> \<open>\<open>s.replace(/""/g, '"')\<close>: leftmost pairs first, a replaced pair is not rescanned\<close>
  "replace_dqdq [] = []"
| "replace_dqdq [c] = [c]"
| "replace_dqdq (c # c' # cs) =
     (if c = DQ \<and> c' = DQ then DQ # replace_dqdq cs else c # replace_dqdq (c' # cs))"

section \<open>parseCSV: options and parser state\<close>

record options =
  delimiter :: "jsstring option"
  commentChar :: "jsstring option"
  hasHeader :: "bool option"
  trim :: "bool option"

definition delimiter_of :: "options \<Rightarrow> jsstring" where
  \<comment> \<open>\<open>options.delimiter || ','\<close>: undefined and the empty string are falsy\<close>
  "delimiter_of opts =
     (case delimiter opts of None \<Rightarrow> js '','' | Some s \<Rightarrow> if s = [] then js '','' else s)"

definition commentChar_of :: "options \<Rightarrow> jsstring" where
  \<comment> \<open>\<open>options.commentChar || '#'\<close>\<close>
  "commentChar_of opts =
     (case commentChar opts of None \<Rightarrow> js ''#'' | Some s \<Rightarrow> if s = [] then js ''#'' else s)"

definition hasHeader_of :: "options \<Rightarrow> bool" where
  \<comment> \<open>\<open>options.hasHeader !== false\<close>\<close>
  "hasHeader_of opts = (hasHeader opts \<noteq> Some False)"

definition trim_of :: "options \<Rightarrow> bool" where
  \<comment> \<open>\<open>options.trim !== false\<close>\<close>
  "trim_of opts = (trim opts \<noteq> Some False)"

definition defaults :: options where
  \<comment> \<open>the call \<open>parseCSV(data)\<close>: \<open>options = {}\<close>\<close>
  "defaults = \<lparr>delimiter = None, commentChar = None, hasHeader = None, trim = None\<rparr>"

text \<open>The variables of the state machine (lines 31 to 38); \<open>pos\<close> is the source's \<open>i\<close>.
  \<open>prevChar\<close> is never read or written after its initialisation and is left out.\<close>

record pstate =
  rows :: "jsstring list list"
  row :: "jsstring list"
  field :: jsstring
  inQuotes :: bool
  pos :: nat
  lineStart :: bool
  curLineNum :: nat

definition init :: pstate where
  "init = \<lparr>rows = [], row = [], field = [], inQuotes = False, pos = 0, lineStart = True,
            curLineNum = 1\<rparr>"

definition pushField :: "options \<Rightarrow> pstate \<Rightarrow> pstate" where
  "pushField opts st =
     (let f1 = (if \<not> inQuotes st \<and> trim_of opts then js_trim (field st) else field st);
          f2 = (if 2 \<le> length f1 \<and> startsWith f1 [DQ] \<and> endsWith f1 [DQ]
                then replace_dqdq (butlast (tl f1)) else f1)
      in st\<lparr>row := row st @ [f2], field := []\<rparr>)"

definition pushRow :: "options \<Rightarrow> pstate \<Rightarrow> pstate" where
  "pushRow opts st =
     (if length (row st) = 1 \<and> (row st ! 0 = [] \<or> js_trim (row st ! 0) = [])
      then st\<lparr>row := []\<rparr>
      else if 0 < length (row st) \<and> startsWith (js_trim (row st ! 0)) (commentChar_of opts)
      then st\<lparr>row := []\<rparr>
      else st\<lparr>rows := rows st @ [row st], row := []\<rparr>)"

function skipLine :: "jsstring \<Rightarrow> nat \<Rightarrow> nat" where
  \<comment> \<open>line 82: \<open>while (i < data.length && data[i] !== '\n') i++\<close>\<close>
  "skipLine d k = (if k < length d \<and> d ! k \<noteq> LF then skipLine d (k + 1) else k)"
  by pat_completeness auto
termination
  by (relation "measure (\<lambda>(d, k). length d - k)") auto

declare skipLine.simps [simp del]

definition step :: "options \<Rightarrow> jsstring \<Rightarrow> pstate \<Rightarrow> pstate" where
  \<comment> \<open>one iteration of the loop of line 77, entered with \<open>pos st < length d\<close>\<close>
  "step opts d st =
     (let c = d ! pos st in
      if lineStart st \<and> [c] = commentChar_of opts then
        st\<lparr>pos := skipLine d (pos st) + 1, lineStart := True, curLineNum := curLineNum st + 1\<rparr>
      else if \<not> inQuotes st \<and> [c] = delimiter_of opts then
        (pushField opts st)\<lparr>lineStart := False, pos := pos st + 1\<rparr>
      else if \<not> inQuotes st \<and> c = LF then
        (pushRow opts (pushField opts st))
          \<lparr>lineStart := True, curLineNum := curLineNum st + 1, pos := pos st + 1\<rparr>
      else if \<not> inQuotes st \<and> c = NUL then
        (pushRow opts (pushField opts st))\<lparr>lineStart := True, pos := pos st + 1\<rparr>
      else if c = DQ then
        (if \<not> inQuotes st then
           (if field st = [] then
              st\<lparr>inQuotes := True, field := field st @ [c], lineStart := False, pos := pos st + 1\<rparr>
            else st\<lparr>field := field st @ [c], lineStart := False, pos := pos st + 1\<rparr>)
         else if js_at d (pos st + 1) = Some DQ then
           st\<lparr>field := field st @ [DQ], lineStart := False, pos := pos st + 2\<rparr>
         else st\<lparr>inQuotes := False, field := field st @ [c], lineStart := False,
                 pos := pos st + 1\<rparr>)
      else if c = LF \<and> inQuotes st then
        st\<lparr>field := field st @ [LF], curLineNum := curLineNum st + 1, pos := pos st + 1\<rparr>
      else st\<lparr>field := field st @ [c], lineStart := False, pos := pos st + 1\<rparr>)"

function scan :: "options \<Rightarrow> jsstring \<Rightarrow> pstate \<Rightarrow> pstate" where
  \<comment> \<open>lines 77 to 153: \<open>while (i < data.length) { ... }\<close>\<close>
  "scan opts d st = (if pos st < length d then scan opts d (step opts d st) else st)"
  by pat_completeness auto
termination
proof (relation "measure (\<lambda>(opts, d, st). length d - pos st)")
  fix opts :: options and d :: jsstring and st :: pstate
  assume "pos st < length d"
  have ge: "k \<le> skipLine d k" for k
    by (induction d k rule: skipLine.induct) (subst skipLine.simps, auto)
  have "pos st < pos (step opts d st)"
    using ge [of "pos st"] by (simp add: step_def Let_def pushField_def pushRow_def)
  with \<open>pos st < length d\<close>
  show "((opts, d, step opts d st), (opts, d, st))
          \<in> measure (\<lambda>(opts, d, st). length d - pos st)"
    by (auto intro: diff_less_mono2)
qed simp

declare scan.simps [simp del]

definition stripBOM :: "jsstring \<Rightarrow> jsstring" where
  \<comment> \<open>lines 23 to 25: \<open>if (data.charCodeAt(0) === 0xFEFF) data = data.slice(1)\<close>\<close>
  "stripBOM data = (case data of [] \<Rightarrow> [] | c # cs \<Rightarrow> if c = BOM then cs else data)"

definition normalizeEOL :: "jsstring \<Rightarrow> jsstring" where
  \<comment> \<open>line 28\<close>
  "normalizeEOL data = replace_cr (replace_crlf data)"

definition finish :: "options \<Rightarrow> pstate \<Rightarrow> pstate" where
  \<comment> \<open>lines 156 to 159\<close>
  "finish opts st =
     (if 0 < length (field st) \<or> 0 < length (row st) then pushRow opts (pushField opts st)
      else st)"

function dropTrailing :: "jsstring list list \<Rightarrow> jsstring list list" where
  \<comment> \<open>lines 162 to 164: pop while the last row is a single empty field\<close>
  "dropTrailing rs =
     (if 0 < length rs \<and> length (last rs) = 1 \<and> last rs ! 0 = []
      then dropTrailing (butlast rs) else rs)"
  by pat_completeness auto
termination
  by (relation "measure length") auto

declare dropTrailing.simps [simp del]

definition tokenize :: "options \<Rightarrow> jsstring \<Rightarrow> jsstring list list" where
  \<comment> \<open>lines 22 to 164 of parseCSV: the rows, before the header is applied\<close>
  "tokenize opts data =
     dropTrailing (rows (finish opts (scan opts (normalizeEOL (stripBOM data)) init)))"

section \<open>parseCSV: records\<close>

type_synonym jsobject = "jsstring \<rightharpoonup> jsstring"

definition obj_set :: "jsobject \<Rightarrow> jsstring \<Rightarrow> jsstring \<Rightarrow> jsobject" where
  \<comment> \<open>\<open>obj[k] = v\<close> on an object created by \<open>{}\<close>, for a string \<open>v\<close>: the key
      \<open>__proto__\<close> reaches the setter of \<open>Object.prototype\<close>, which ignores a value that
      is not an object, and no own property is created\<close>
  "obj_set obj k v = (if k = js ''__proto__'' then obj else obj(k \<mapsto> v))"

fun decimal :: "nat \<Rightarrow> jsstring" where
  \<comment> \<open>the string of a non-negative integer, as \<open>'field' + (j + 1)\<close> appends it\<close>
  "decimal n =
     (if n < 10 then [0x30 + of_nat n] else decimal (n div 10) @ [0x30 + of_nat (n mod 10)])"

declare decimal.simps [simp del]

text \<open>
  Line 177 computes the longest row as \<open>Math.max(...rows.map(r => r.length))\<close>: the spread
  passes one call argument per row. An engine accepts only a bounded number of arguments in
  one call and throws a \<open>RangeError\<close> beyond it. The bound belongs to the engine and not to
  the source, so it is the parameter \<open>argLimit\<close>. No other statement of the function can
  throw on a string input with options of the kinds above: the source has no \<open>throw\<close>, and
  each indexed read is either guarded by a length test in the same condition (lines 60, 67,
  162, 167, 183) or yields \<open>undefined\<close>, which is compared and never dereferenced (lines
  126, 188).
\<close>

datatype js_error = RangeError

definition maxLen :: "nat \<Rightarrow> jsstring list list \<Rightarrow> js_error + nat" where
  \<comment> \<open>line 177: \<open>Math.max(...rows.map(r => r.length))\<close>, reached with \<open>rows\<close> non-empty\<close>
  "maxLen argLimit rs =
     (if argLimit < length rs then Inl RangeError else Inr (foldr max (map length rs) 0))"

definition genHeaders :: "nat \<Rightarrow> jsstring list" where
  \<comment> \<open>line 178: \<open>for (let j = 0; j < maxLen; j++) headers.push('field' + (j + 1))\<close>\<close>
  "genHeaders n = map (\<lambda>j. js ''field'' @ decimal (j + 1)) [0..<n]"

definition buildObj :: "jsstring list \<Rightarrow> jsstring list \<Rightarrow> jsobject" where
  \<comment> \<open>lines 186 to 189: \<open>obj[headers[j]] = r[j] !== undefined ? r[j] : ''\<close> for each \<open>j\<close>\<close>
  "buildObj headers r =
     fold (\<lambda>j obj. obj_set obj (headers ! j) (case js_at r j of Some v \<Rightarrow> v | None \<Rightarrow> []))
       [0..<length headers] Map.empty"

definition parseCSV :: "nat \<Rightarrow> options \<Rightarrow> jsstring \<Rightarrow> js_error + jsobject list" where
  \<comment> \<open>\<open>Inl\<close> is the exception thrown, \<open>Inr\<close> the array returned\<close>
  "parseCSV argLimit opts data =
     (let rs = tokenize opts data in
      if length rs = 0 then Inr []
      else if hasHeader_of opts then Inr (map (buildObj (rs ! 0)) (drop 1 rs))
      else (case maxLen argLimit rs of
              Inl e \<Rightarrow> Inl e
            | Inr n \<Rightarrow> Inr (map (buildObj (genHeaders n)) rs)))"

section \<open>splitCSVLines\<close>

function splitLoop ::
  "jsstring \<Rightarrow> nat \<Rightarrow> jsstring list \<Rightarrow> jsstring \<Rightarrow> bool \<Rightarrow> jsstring list" where
  \<comment> \<open>the loop of lines 200 to 220 followed by line 221, from index \<open>k\<close> with the lines
      \<open>ls\<close>, the current line \<open>cur\<close> and the flag \<open>inQuotes\<close>\<close>
  "splitLoop d k ls cur q =
     (if k < length d then
        (let c = d ! k in
         if c = DQ then
           (if q \<and> js_at d (k + 1) = Some DQ then splitLoop d (k + 2) ls (cur @ [DQ]) q
            else splitLoop d (k + 1) ls (cur @ [DQ]) (\<not> q))
         else if (c = LF \<or> c = CR) \<and> \<not> q then
           splitLoop d ((if c = CR \<and> js_at d (k + 1) = Some LF then k + 1 else k) + 1)
             (if js_trim cur \<noteq> [] then ls @ [cur] else ls) [] q
         else splitLoop d (k + 1) ls (cur @ [c]) q)
      else (if js_trim cur \<noteq> [] then ls @ [cur] else ls))"
  by pat_completeness auto
termination
  by (relation "measure (\<lambda>(d, k, ls, cur, q). length d - k)") auto

declare splitLoop.simps [simp del]

definition splitCSVLines :: "jsstring \<Rightarrow> jsstring list" where
  "splitCSVLines data = splitLoop data 0 [] [] False"

section \<open>The scan as a function of the remaining input\<close>

text \<open>
  \<open>step\<close> reads the input only through the unit at \<open>pos\<close>, the unit after it and the
  distance to the next newline. \<open>lstep\<close> is the same transition written on the remaining
  input \<open>drop pos d\<close>, and \<open>lscan\<close> iterates it; \<open>scan_lscan\<close> below shows that the loop
  of the source computes \<open>lscan\<close>. Proofs by induction on the input use this view.
\<close>

definition lstep :: "options \<Rightarrow> pstate \<Rightarrow> jsstring \<Rightarrow> pstate" where
  "lstep opts st cs =
     (let c = hd cs in
      if lineStart st \<and> [c] = commentChar_of opts then
        st\<lparr>pos := pos st + length (takeWhile (\<lambda>x. x \<noteq> LF) cs) + 1, lineStart := True,
           curLineNum := curLineNum st + 1\<rparr>
      else if \<not> inQuotes st \<and> [c] = delimiter_of opts then
        (pushField opts st)\<lparr>lineStart := False, pos := pos st + 1\<rparr>
      else if \<not> inQuotes st \<and> c = LF then
        (pushRow opts (pushField opts st))
          \<lparr>lineStart := True, curLineNum := curLineNum st + 1, pos := pos st + 1\<rparr>
      else if \<not> inQuotes st \<and> c = NUL then
        (pushRow opts (pushField opts st))\<lparr>lineStart := True, pos := pos st + 1\<rparr>
      else if c = DQ then
        (if \<not> inQuotes st then
           (if field st = [] then
              st\<lparr>inQuotes := True, field := field st @ [c], lineStart := False, pos := pos st + 1\<rparr>
            else st\<lparr>field := field st @ [c], lineStart := False, pos := pos st + 1\<rparr>)
         else if js_at cs 1 = Some DQ then
           st\<lparr>field := field st @ [DQ], lineStart := False, pos := pos st + 2\<rparr>
         else st\<lparr>inQuotes := False, field := field st @ [c], lineStart := False,
                 pos := pos st + 1\<rparr>)
      else if c = LF \<and> inQuotes st then
        st\<lparr>field := field st @ [LF], curLineNum := curLineNum st + 1, pos := pos st + 1\<rparr>
      else st\<lparr>field := field st @ [c], lineStart := False, pos := pos st + 1\<rparr>)"

function lscan :: "options \<Rightarrow> pstate \<Rightarrow> jsstring \<Rightarrow> pstate" where
  "lscan opts st cs =
     (if cs = [] then st
      else lscan opts (lstep opts st cs) (drop (pos (lstep opts st cs) - pos st) cs))"
  by pat_completeness auto
termination
proof (relation "measure (\<lambda>(opts, st, cs). length cs)")
  fix opts :: options and st :: pstate and cs :: jsstring
  assume "cs \<noteq> []"
  then have "0 < length cs"
    by simp
  moreover have "pos st < pos (lstep opts st cs)"
    by (simp add: lstep_def Let_def pushField_def pushRow_def)
  ultimately have "length cs - (pos (lstep opts st cs) - pos st) < length cs"
    by arith
  then
  show "((opts, lstep opts st cs, drop (pos (lstep opts st cs) - pos st) cs), (opts, st, cs))
          \<in> measure (\<lambda>(opts, st, cs). length cs)"
    by simp
qed simp

declare lscan.simps [simp del]

section \<open>Counting the character inspections of the scan\<close>

text \<open>
  The reads of \<open>data[...]\<close> in one iteration of the loop: line 78 reads \<open>data[i]\<close>; the
  comment branch reads one unit for every test of line 82 made with \<open>i < data.length\<close>; a
  quote met inside a quoted field reads \<open>data[i + 1]\<close> (line 126). \<open>scanReads\<close> adds them
  up along the loop.
\<close>

definition stepReads :: "options \<Rightarrow> jsstring \<Rightarrow> pstate \<Rightarrow> nat" where
  "stepReads opts d st =
     (let c = d ! pos st in
      if lineStart st \<and> [c] = commentChar_of opts then
        1 + (skipLine d (pos st) - pos st) + (if skipLine d (pos st) < length d then 1 else 0)
      else if \<not> inQuotes st \<and> ([c] = delimiter_of opts \<or> c = LF \<or> c = NUL) then 1
      else if c = DQ \<and> inQuotes st then 2
      else 1)"

function scanReads :: "options \<Rightarrow> jsstring \<Rightarrow> pstate \<Rightarrow> nat" where
  "scanReads opts d st =
     (if pos st < length d then stepReads opts d st + scanReads opts d (step opts d st) else 0)"
  by pat_completeness auto
termination
proof (relation "measure (\<lambda>(opts, d, st). length d - pos st)")
  fix opts :: options and d :: jsstring and st :: pstate
  assume "pos st < length d"
  have ge: "k \<le> skipLine d k" for k
    by (induction d k rule: skipLine.induct) (subst skipLine.simps, auto)
  have "pos st < pos (step opts d st)"
    using ge [of "pos st"] by (simp add: step_def Let_def pushField_def pushRow_def)
  with \<open>pos st < length d\<close>
  show "((opts, d, step opts d st), (opts, d, st))
          \<in> measure (\<lambda>(opts, d, st). length d - pos st)"
    by (auto intro: diff_less_mono2)
qed simp

declare scanReads.simps [simp del]

section \<open>Line-ending styles\<close>

text \<open>The text \<open>t\<close> with every newline written as \<open>\r\n\<close>, and as \<open>\r\<close>.\<close>

definition withCRLF :: "jsstring \<Rightarrow> jsstring" where
  "withCRLF t = concat (map (\<lambda>c. if c = LF then [CR, LF] else [c]) t)"

definition withCR :: "jsstring \<Rightarrow> jsstring" where
  "withCR t = map (\<lambda>c. if c = LF then CR else c) t"

section \<open>Partial views used in the proofs\<close>

definition cell :: "jsstring list \<Rightarrow> nat \<Rightarrow> jsstring" where
  \<comment> \<open>\<open>r[j] !== undefined ? r[j] : ''\<close>\<close>
  "cell r j = (case js_at r j of Some v \<Rightarrow> v | None \<Rightarrow> [])"

definition objUpTo :: "jsstring list \<Rightarrow> jsstring list \<Rightarrow> nat \<Rightarrow> jsobject" where
  \<comment> \<open>the object of line 186 after the first \<open>n\<close> iterations of the loop of line 187\<close>
  "objUpTo h r n = fold (\<lambda>j obj. obj_set obj (h ! j) (cell r j)) [0..<n] Map.empty"

fun adjacentDQ :: "jsstring \<Rightarrow> bool" where
  \<comment> \<open>some two neighbouring units are both double quotes\<close>
  "adjacentDQ [] = False"
| "adjacentDQ [c] = False"
| "adjacentDQ (c # c' # cs) = ((c = DQ \<and> c' = DQ) \<or> adjacentDQ (c' # cs))"

definition fieldValue :: "options \<Rightarrow> bool \<Rightarrow> jsstring \<Rightarrow> jsstring" where
  \<comment> \<open>the value \<open>pushField\<close> appends for the buffer \<open>f\<close>, with \<open>q\<close> the flag \<open>inQuotes\<close>\<close>
  "fieldValue opts q f =
     (let f1 = (if \<not> q \<and> trim_of opts then js_trim f else f)
      in if 2 \<le> length f1 \<and> startsWith f1 [DQ] \<and> endsWith f1 [DQ]
         then replace_dqdq (butlast (tl f1)) else f1)"

definition discards :: "options \<Rightarrow> jsstring list \<Rightarrow> bool" where
  \<comment> \<open>the two conditions of \<open>pushRow\<close> under which the row is dropped\<close>
  "discards opts r \<longleftrightarrow>
     (length r = 1 \<and> (r ! 0 = [] \<or> js_trim (r ! 0) = []))
     \<or> (0 < length r \<and> startsWith (js_trim (r ! 0)) (commentChar_of opts))"

fun splitWhen :: "('a \<Rightarrow> bool) \<Rightarrow> 'a list \<Rightarrow> 'a list \<Rightarrow> 'a list list" where
  \<comment> \<open>the pieces of \<open>acc @ xs\<close> between the elements of \<open>xs\<close> that satisfy \<open>P\<close>\<close>
  "splitWhen P acc [] = [acc]"
| "splitWhen P acc (x # xs) =
     (if P x then acc # splitWhen P [] xs else splitWhen P (acc @ [x]) xs)"

definition reachable :: "pstate \<Rightarrow> bool" where
  \<comment> \<open>what holds of the state at the head of every iteration of the scan\<close>
  "reachable st \<longleftrightarrow>
     (inQuotes st \<longrightarrow> field st \<noteq> [] \<and> hd (field st) = DQ)
     \<and> [[]] \<notin> set (rows st)
     \<and> (lineStart st \<longrightarrow> row st = [] \<and> field st = [] \<and> \<not> inQuotes st)"

definition lineRows :: "options \<Rightarrow> jsstring \<Rightarrow> jsstring list list" where
  \<comment> \<open>the rows (none or one) that a line without quotes contributes: none when its first
      unit is the comment character; otherwise its fields, split at the delimiter and
      finalized, unless \<open>pushRow\<close> drops them\<close>
  "lineRows opts l =
     (if l \<noteq> [] \<and> [hd l] = commentChar_of opts then []
      else (let r = map (fieldValue opts False) (splitWhen (\<lambda>c. [c] = delimiter_of opts) [] l)
            in if discards opts r then [] else [r]))"

definition lineState :: "jsstring list list \<Rightarrow> nat \<Rightarrow> nat \<Rightarrow> pstate" where
  \<comment> \<open>the state at the start of a line: no pending field or row, no open quote\<close>
  "lineState rs p n =
     \<lparr>rows = rs, row = [], field = [], inQuotes = False, pos = p, lineStart = True,
      curLineNum = n\<rparr>"

section \<open>Lines, as the row-count invariant speaks of them\<close>

fun logicalLines :: "bool \<Rightarrow> jsstring \<Rightarrow> jsstring \<Rightarrow> jsstring list" where
  \<comment> \<open>the quote-aware lines of a normalized text: a newline ends a line unless a quote is
      open; every double quote opens or closes (a doubled quote does both). \<open>q\<close> is the
      quote flag and \<open>acc\<close> the line read so far\<close>
  "logicalLines q acc [] = [acc]"
| "logicalLines q acc (c # cs) =
     (if c = DQ then logicalLines (\<not> q) (acc @ [c]) cs
      else if c = LF \<and> \<not> q then acc # logicalLines q [] cs
      else logicalLines q (acc @ [c]) cs)"

definition specCommentLine :: "options \<Rightarrow> jsstring \<Rightarrow> bool" where
  \<comment> \<open>a comment line of the spec: its first character is the comment character\<close>
  "specCommentLine opts l \<longleftrightarrow> startsWith l (commentChar_of opts)"

definition specBlankLine :: "jsstring \<Rightarrow> bool" where
  \<comment> \<open>a fully-blank line of the spec: empty or all whitespace\<close>
  "specBlankLine l \<longleftrightarrow> js_trim l = []"

definition specRowCount :: "options \<Rightarrow> jsstring \<Rightarrow> nat" where
  \<comment> \<open>the invariant of the spec: logical lines of the normalized input, minus comment
      lines, minus fully-blank lines\<close>
  "specRowCount opts data =
     (let ls = logicalLines False [] (normalizeEOL (stripBOM data))
      in length ls - length (filter (specCommentLine opts) ls) - length (filter specBlankLine ls))"

text \<open>
  The fields of one line. \<open>rawFields\<close> cuts a line into the buffers that the scan
  accumulates between delimiters, with the scan's own rules for quotes: a quote opens a
  quoted field only as the first unit of a field, a doubled quote inside a quoted field is
  one quote of the buffer, and any other quote inside a quoted field closes it. \<open>q\<close> tells
  whether a quoted field is open and \<open>f\<close> is the buffer of the current field.
\<close>

fun rawFields :: "options \<Rightarrow> bool \<Rightarrow> jsstring \<Rightarrow> jsstring \<Rightarrow> jsstring list" where
  "rawFields opts q f [] = [f]"
| "rawFields opts q f (c # cs) =
     (if q then
        (if c = DQ then
           (if cs \<noteq> [] \<and> hd cs = DQ then rawFields opts True (f @ [DQ]) (tl cs)
            else rawFields opts False (f @ [DQ]) cs)
         else rawFields opts True (f @ [c]) cs)
      else if [c] = delimiter_of opts then f # rawFields opts False [] cs
      else if c = DQ then rawFields opts (f = []) (f @ [DQ]) cs
      else rawFields opts False (f @ [c]) cs)"

fun quoteAfter :: "bool \<Rightarrow> jsstring \<Rightarrow> bool" where
  \<comment> \<open>the quote flag of \<open>logicalLines\<close> after a text, from the flag \<open>q\<close> before it\<close>
  "quoteAfter q [] = q"
| "quoteAfter q (c # cs) = quoteAfter (if c = DQ then \<not> q else q) cs"

fun unbroken :: "bool \<Rightarrow> jsstring \<Rightarrow> bool" where
  \<comment> \<open>\<open>logicalLines\<close> ends no line inside the text\<close>
  "unbroken q [] = True"
| "unbroken q (c # cs) =
     (if c = DQ then unbroken (\<not> q) cs else if c = LF \<and> \<not> q then False else unbroken q cs)"

definition lineValues :: "options \<Rightarrow> jsstring \<Rightarrow> jsstring list" where
  \<comment> \<open>the values of the fields of a line: each buffer as \<open>pushField\<close> finalizes it, the
      last one as an open field when the line ends inside a quote\<close>
  "lineValues opts l =
     (let fs = rawFields opts False [] l
      in map (fieldValue opts False) (butlast fs) @ [fieldValue opts (quoteAfter False l) (last fs)])"

definition commentLine :: "options \<Rightarrow> jsstring \<Rightarrow> bool" where
  \<comment> \<open>the lines the parser drops as comments: the first unit is the comment character
      (line 80), or the value of the first field, trimmed, starts with it (line 68)\<close>
  "commentLine opts l \<longleftrightarrow>
     (l \<noteq> [] \<and> [hd l] = commentChar_of opts)
     \<or> startsWith (js_trim (hd (lineValues opts l))) (commentChar_of opts)"

definition blankLine :: "options \<Rightarrow> jsstring \<Rightarrow> bool" where
  \<comment> \<open>the lines the parser drops as blank: a single field, whose value is empty or all
      whitespace (line 60)\<close>
  "blankLine opts l \<longleftrightarrow> length (lineValues opts l) = 1 \<and> js_trim (hd (lineValues opts l)) = []"

fun wellQuoted :: "options \<Rightarrow> bool \<Rightarrow> bool \<Rightarrow> jsstring \<Rightarrow> bool" where
  \<comment> \<open>the quotes of a line are those of well-formed CSV: a quote outside a quoted field
      is the first unit of its field, and no NUL stands outside a quoted field. \<open>q\<close> tells
      whether a quoted field is open and \<open>e\<close> whether the current field is still empty\<close>
  "wellQuoted opts q e [] = True"
| "wellQuoted opts q e (c # cs) =
     (if q then
        (if c = DQ then
           (if cs \<noteq> [] \<and> hd cs = DQ then wellQuoted opts True False (tl cs)
            else wellQuoted opts False False cs)
         else wellQuoted opts True False cs)
      else if [c] = delimiter_of opts then wellQuoted opts False True cs
      else if c = NUL then False
      else if c = DQ then e \<and> wellQuoted opts True False cs
      else wellQuoted opts False False cs)"

definition wellFormedLine :: "options \<Rightarrow> jsstring \<Rightarrow> bool" where
  \<comment> \<open>a line that starts with the comment character has no quote; any other line is
      well quoted\<close>
  "wellFormedLine opts l =
     (if l \<noteq> [] \<and> [hd l] = commentChar_of opts then DQ \<notin> set l
      else wellQuoted opts False True l)"

definition quotedLineRows :: "options \<Rightarrow> jsstring \<Rightarrow> jsstring list list" where
  \<comment> \<open>the rows (none or one) that a well-formed line contributes: none when its first
      unit is the comment character; otherwise the values of its fields, unless \<open>pushRow\<close>
      drops them\<close>
  "quotedLineRows opts l =
     (if l \<noteq> [] \<and> [hd l] = commentChar_of opts then []
      else if discards opts (lineValues opts l) then [] else [lineValues opts l])"

definition core :: "pstate \<Rightarrow> jsstring list list \<times> jsstring list \<times> jsstring \<times> bool \<times> bool" where
  \<comment> \<open>the state without the counters \<open>pos\<close> and \<open>curLineNum\<close>\<close>
  "core st = (rows st, row st, field st, inQuotes st, lineStart st)"

section \<open>Line splitting, as a classification of the input\<close>

fun lineMarks :: "bool \<Rightarrow> jsstring \<Rightarrow> jschar option list" where
  \<comment> \<open>what becomes of each unit of the input, with \<open>q\<close> telling whether a quoted region is
      open: \<open>None\<close> is a line boundary (an unquoted \<open>\n\<close> or \<open>\r\<close>, an unquoted \<open>\r\n\<close>
      counting once) and \<open>Some c\<close> a unit of the current line (a doubled quote inside a quoted
      region counting once)\<close>
  "lineMarks q [] = []"
| "lineMarks q (c # cs) =
     (if c = DQ then
        (if q \<and> cs \<noteq> [] \<and> hd cs = DQ then Some DQ # lineMarks q (tl cs)
         else Some DQ # lineMarks (\<not> q) cs)
      else if (c = LF \<or> c = CR) \<and> \<not> q then
        None # lineMarks q (if c = CR \<and> cs \<noteq> [] \<and> hd cs = LF then tl cs else cs)
      else Some c # lineMarks q cs)"

fun pieces :: "jschar option list \<Rightarrow> jsstring \<Rightarrow> jsstring list" where
  \<comment> \<open>the lines between the boundaries, the last one included; \<open>acc\<close> is the line so far\<close>
  "pieces [] acc = [acc]"
| "pieces (None # ms) acc = acc # pieces ms []"
| "pieces (Some c # ms) acc = pieces ms (acc @ [c])"

definition specSplitLines :: "jsstring \<Rightarrow> jsstring list" where
  \<comment> \<open>split at the boundaries, then drop the lines that are empty or all whitespace\<close>
  "specSplitLines data = filter (\<lambda>l. js_trim l \<noteq> []) (pieces (lineMarks False data) [])"

section \<open>Evaluation helpers\<close>

lemma hasHeader_of_False: "hasHeader_of (defaults\<lparr>hasHeader := Some False\<rparr>) = False"
  by (simp add: hasHeader_of_def defaults_def)

lemma hasHeader_of_defaults: "hasHeader_of defaults = True"
  by (simp add: hasHeader_of_def defaults_def)

section \<open>The loop of the source computes the list view\<close>

lemma pos_pushField [simp]: "pos (pushField opts st) = pos st"
  by (simp add: pushField_def Let_def)

lemma pos_pushRow [simp]: "pos (pushRow opts st) = pos st"
  by (simp add: pushRow_def)

lemma skipLine_takeWhile:
  "skipLine d k = k + length (takeWhile (\<lambda>x. x \<noteq> LF) (drop k d))"
proof (induction d k rule: skipLine.induct)
  case (1 d k)
  show ?case
  proof (cases "k < length d \<and> d ! k \<noteq> LF")
    case True
    then have "drop k d = d ! k # drop (Suc k) d"
      by (simp add: Cons_nth_drop_Suc)
    with True 1 show ?thesis
      by (subst skipLine.simps) simp
  next
    case False
    have "takeWhile (\<lambda>x. x \<noteq> LF) (drop k d) = []"
    proof (cases "k < length d")
      case True
      with False have "drop k d = LF # drop (Suc k) d"
        by (simp add: Cons_nth_drop_Suc [symmetric])
      then show ?thesis by simp
    qed simp
    with False show ?thesis
      by (subst skipLine.simps) auto
  qed
qed

lemma step_lstep:
  assumes "pos st < length d"
  shows "step opts d st = lstep opts st (drop (pos st) d)"
proof -
  from assms have hd: "hd (drop (pos st) d) = d ! pos st"
    by (simp add: hd_drop_conv_nth)
  have at: "js_at (drop (pos st) d) 1 = js_at d (pos st + 1)"
    using assms by (auto simp: js_at_def)
  show ?thesis
    unfolding step_def lstep_def hd at skipLine_takeWhile by simp
qed

lemma step_advances: "pos st < pos (step opts d st)"
  using skipLine_takeWhile [of d "pos st"] by (simp add: step_def Let_def)

lemma scan_lscan: "scan opts d st = lscan opts st (drop (pos st) d)"
proof (induction opts d st rule: scan.induct)
  case (1 opts d st)
  show ?case
  proof (cases "pos st < length d")
    case True
    let ?st' = "step opts d st"
    have "scan opts d st = lscan opts ?st' (drop (pos ?st') d)"
      using True 1 by (subst scan.simps) simp
    also have "drop (pos ?st') d = drop (pos ?st' - pos st) (drop (pos st) d)"
      using step_advances [of st opts d] by simp
    also have "lscan opts ?st' \<dots> = lscan opts st (drop (pos st) d)"
      using True by (subst (2) lscan.simps) (simp add: step_lstep)
    finally show ?thesis .
  next
    case False
    then show ?thesis
      by (subst scan.simps, subst lscan.simps) simp
  qed
qed

section \<open>Invariants of the scan\<close>

lemma pushField_fieldValue:
  "pushField opts st = st\<lparr>row := row st @ [fieldValue opts (inQuotes st) (field st)], field := []\<rparr>"
  by (simp add: pushField_def fieldValue_def Let_def)

lemma pushRow_discards:
  "pushRow opts st =
     (if discards opts (row st) then st\<lparr>row := []\<rparr>
      else st\<lparr>rows := rows st @ [row st], row := []\<rparr>)"
  by (auto simp: pushRow_def discards_def)

lemma discards_single_empty [simp]: "discards opts [[]]"
  by (simp add: discards_def)

lemma reachable_init: "reachable init"
  by (simp add: reachable_def init_def)

lemma reachable_step: "reachable st \<Longrightarrow> reachable (step opts d st)"
  unfolding reachable_def step_def Let_def pushField_fieldValue pushRow_discards
  by (auto split: if_splits)

lemma reachable_scan_from: "reachable st \<Longrightarrow> reachable (scan opts d st)"
proof (induction opts d st rule: scan.induct)
  case (1 opts d st)
  show ?case
  proof (cases "pos st < length d")
    case True
    from "1.prems" have "reachable (step opts d st)"
      by (rule reachable_step)
    with True "1.IH" have "reachable (scan opts d (step opts d st))"
      by blast
    with True show ?thesis
      by (subst scan.simps) simp
  next
    case False
    with "1.prems" show ?thesis
      by (subst scan.simps) simp
  qed
qed

lemma reachable_scan: "reachable (scan opts d init)"
  by (rule reachable_scan_from [OF reachable_init])

lemma dropTrailing_id:
  assumes "[[]] \<notin> set rs"
  shows "dropTrailing rs = rs"
proof (cases "rs = []")
  case True
  then show ?thesis
    by (subst dropTrailing.simps) simp
next
  case False
  with assms have "last rs \<noteq> [[]]"
    using last_in_set [of rs] by metis
  then have "\<not> (length (last rs) = 1 \<and> last rs ! 0 = [])"
    by (cases "last rs") auto
  then show ?thesis
    by (subst dropTrailing.simps) auto
qed

lemma rows_finish_no_blank: "[[]] \<notin> set (rows st) \<Longrightarrow> [[]] \<notin> set (rows (finish opts st))"
  by (auto simp: finish_def pushField_fieldValue pushRow_discards)

lemma tokenize_rows:
  "tokenize opts data = rows (finish opts (scan opts (normalizeEOL (stripBOM data)) init))"
proof -
  have "reachable (scan opts (normalizeEOL (stripBOM data)) init)"
    by (rule reachable_scan)
  then have "[[]] \<notin> set (rows (finish opts (scan opts (normalizeEOL (stripBOM data)) init)))"
    by (intro rows_finish_no_blank) (simp add: reachable_def)
  then show ?thesis
    by (simp add: tokenize_def dropTrailing_id)
qed

section \<open>Scanning lines without quotes\<close>

lemma lscan_Nil [simp]: "lscan opts st [] = st"
  by (subst lscan.simps) simp

lemma lscan_Cons:
  "lscan opts st (c # cs) =
     lscan opts (lstep opts st (c # cs)) (drop (pos (lstep opts st (c # cs)) - pos st) (c # cs))"
  by (subst lscan.simps) simp

lemma lscan_comment:
  assumes "lineStart st" "[c] = commentChar_of opts"
  shows "lscan opts st (c # cs) =
           lscan opts (st\<lparr>pos := pos st + length (takeWhile (\<lambda>x. x \<noteq> LF) (c # cs)) + 1,
                          lineStart := True, curLineNum := curLineNum st + 1\<rparr>)
             (drop 1 (dropWhile (\<lambda>x. x \<noteq> LF) (c # cs)))"
proof -
  have "lstep opts st (c # cs) =
          st\<lparr>pos := pos st + length (takeWhile (\<lambda>x. x \<noteq> LF) (c # cs)) + 1,
             lineStart := True, curLineNum := curLineNum st + 1\<rparr>"
    using assms by (simp add: lstep_def)
  moreover have "drop (length (takeWhile (\<lambda>x. x \<noteq> LF) (c # cs)) + 1) (c # cs)
                   = drop 1 (dropWhile (\<lambda>x. x \<noteq> LF) (c # cs))"
    unfolding dropWhile_eq_drop by (simp only: drop_drop add.commute)
  ultimately show ?thesis
    by (subst lscan_Cons) simp
qed

lemma lstep_plain:
  assumes "\<not> (lineStart st \<and> [c] = commentChar_of opts)" "\<not> inQuotes st"
    "[c] \<noteq> delimiter_of opts" "c \<noteq> LF" "c \<noteq> NUL" "c \<noteq> DQ"
  shows "lstep opts st (c # cs) = st\<lparr>field := field st @ [c], lineStart := False, pos := pos st + 1\<rparr>"
  using assms by (auto simp: lstep_def)

lemma lstep_delim:
  assumes "\<not> (lineStart st \<and> [c] = commentChar_of opts)" "\<not> inQuotes st"
    "[c] = delimiter_of opts"
  shows "lstep opts st (c # cs) = (pushField opts st)\<lparr>lineStart := False, pos := pos st + 1\<rparr>"
  using assms by (auto simp: lstep_def)

lemma lstep_LF:
  assumes "\<not> (lineStart st \<and> [LF] = commentChar_of opts)" "\<not> inQuotes st"
    "[LF] \<noteq> delimiter_of opts"
  shows "lstep opts st (LF # cs) =
           (pushRow opts (pushField opts st))
              \<lparr>lineStart := True, curLineNum := curLineNum st + 1, pos := pos st + 1\<rparr>"
  using assms by (auto simp: lstep_def)

lemma lscan_plain:
  assumes "\<not> (lineStart st \<and> [c] = commentChar_of opts)" "\<not> inQuotes st"
    "[c] \<noteq> delimiter_of opts" "c \<noteq> LF" "c \<noteq> NUL" "c \<noteq> DQ"
  shows "lscan opts st (c # cs) =
           lscan opts (st\<lparr>field := field st @ [c], lineStart := False, pos := pos st + 1\<rparr>) cs"
  by (subst lscan_Cons) (simp add: lstep_plain [OF assms])

lemma lscan_delim:
  assumes "\<not> (lineStart st \<and> [c] = commentChar_of opts)" "\<not> inQuotes st"
    "[c] = delimiter_of opts"
  shows "lscan opts st (c # cs) =
           lscan opts ((pushField opts st)\<lparr>lineStart := False, pos := pos st + 1\<rparr>) cs"
  by (subst lscan_Cons) (simp add: lstep_delim [OF assms])

lemma lscan_LF:
  assumes "\<not> (lineStart st \<and> [LF] = commentChar_of opts)" "\<not> inQuotes st"
    "[LF] \<noteq> delimiter_of opts"
  shows "lscan opts st (LF # cs) =
           lscan opts ((pushRow opts (pushField opts st))
                         \<lparr>lineStart := True, curLineNum := curLineNum st + 1, pos := pos st + 1\<rparr>) cs"
  by (subst lscan_Cons) (simp add: lstep_LF [OF assms])

lemma splitWhen_nonempty [simp]: "splitWhen P acc xs \<noteq> []"
  by (induction xs arbitrary: acc) auto

lemma lscan_segment:
  assumes "\<not> inQuotes st" "\<forall>c\<in>set l. c \<noteq> LF \<and> c \<noteq> NUL \<and> c \<noteq> DQ"
    "\<not> (lineStart st \<and> l \<noteq> [] \<and> [hd l] = commentChar_of opts)"
  shows "lscan opts st (l @ rest) =
           lscan opts
             (st\<lparr>row := row st @ map (fieldValue opts False)
                                     (butlast (splitWhen (\<lambda>c. [c] = delimiter_of opts) (field st) l)),
                 field := last (splitWhen (\<lambda>c. [c] = delimiter_of opts) (field st) l),
                 lineStart := lineStart st \<and> l = [],
                 pos := pos st + length l\<rparr>) rest"
  using assms
proof (induction l arbitrary: st)
  case Nil
  then show ?case by simp
next
  case (Cons c l)
  show ?case
  proof (cases "[c] = delimiter_of opts")
    case True
    let ?st1 = "(pushField opts st)\<lparr>lineStart := False, pos := pos st + 1\<rparr>"
    have "lscan opts st ((c # l) @ rest) = lscan opts ?st1 (l @ rest)"
      using Cons.prems True by (simp add: lscan_delim)
    also have "\<dots> = lscan opts
             (?st1\<lparr>row := row ?st1 @ map (fieldValue opts False)
                                     (butlast (splitWhen (\<lambda>c. [c] = delimiter_of opts) (field ?st1) l)),
                 field := last (splitWhen (\<lambda>c. [c] = delimiter_of opts) (field ?st1) l),
                 lineStart := lineStart ?st1 \<and> l = [],
                 pos := pos ?st1 + length l\<rparr>) rest"
      using Cons.prems by (intro Cons.IH) (simp_all add: pushField_fieldValue)
    finally show ?thesis
      using True Cons.prems by (simp add: pushField_fieldValue)
  next
    case False
    let ?st1 = "st\<lparr>field := field st @ [c], lineStart := False, pos := pos st + 1\<rparr>"
    have "lscan opts st ((c # l) @ rest) = lscan opts ?st1 (l @ rest)"
      using Cons.prems False by (simp add: lscan_plain)
    also have "\<dots> = lscan opts
             (?st1\<lparr>row := row ?st1 @ map (fieldValue opts False)
                                     (butlast (splitWhen (\<lambda>c. [c] = delimiter_of opts) (field ?st1) l)),
                 field := last (splitWhen (\<lambda>c. [c] = delimiter_of opts) (field ?st1) l),
                 lineStart := lineStart ?st1 \<and> l = [],
                 pos := pos ?st1 + length l\<rparr>) rest"
      using Cons.prems by (intro Cons.IH) simp_all
    finally show ?thesis
      using False by simp
  qed
qed


lemma lscan_comment_line:
  assumes "lineStart st" "[c] = commentChar_of opts" "LF \<notin> set (c # l)"
  shows "lscan opts st (c # l @ LF # rest) =
           lscan opts (st\<lparr>pos := pos st + length l + 2, lineStart := True,
                          curLineNum := curLineNum st + 1\<rparr>) rest"
    and "lscan opts st (c # l) =
           st\<lparr>pos := pos st + length l + 2, lineStart := True, curLineNum := curLineNum st + 1\<rparr>"
proof -
  from assms(3) have all: "\<forall>x\<in>set (c # l). x \<noteq> LF"
    by auto
  have tw: "takeWhile (\<lambda>x. x \<noteq> LF) ((c # l) @ LF # rest) = c # l"
    using all by (subst takeWhile_append2) auto
  have dw: "dropWhile (\<lambda>x. x \<noteq> LF) ((c # l) @ LF # rest) = LF # rest"
    using all by (subst dropWhile_append2) auto
  show "lscan opts st (c # l @ LF # rest) =
           lscan opts (st\<lparr>pos := pos st + length l + 2, lineStart := True,
                          curLineNum := curLineNum st + 1\<rparr>) rest"
    using tw dw by (subst lscan_comment [OF assms(1,2)]) simp
  have tw': "takeWhile (\<lambda>x. x \<noteq> LF) (c # l) = c # l"
    using all by (subst takeWhile_eq_all_conv) auto
  have dw': "dropWhile (\<lambda>x. x \<noteq> LF) (c # l) = []"
    using all by (subst dropWhile_eq_Nil_conv) auto
  show "lscan opts st (c # l) =
           st\<lparr>pos := pos st + length l + 2, lineStart := True, curLineNum := curLineNum st + 1\<rparr>"
    using tw' dw' by (subst lscan_comment [OF assms(1,2)]) simp
qed

lemma splitWhen_none: "\<forall>x\<in>set xs. \<not> P x \<Longrightarrow> splitWhen P acc xs = [acc @ xs]"
  by (induction xs arbitrary: acc) auto

lemma length_splitWhen: "length (splitWhen P acc xs) = Suc (length (filter P xs))"
  by (induction xs arbitrary: acc) auto

lemma hd_splitWhen: "hd (splitWhen P acc xs) = acc @ takeWhile (\<lambda>x. \<not> P x) xs"
  by (induction xs arbitrary: acc) auto

lemma init_lineState: "init = lineState [] 0 1"
  by (simp add: init_def lineState_def)

lemma lscan_line:
  assumes plain: "\<forall>c\<in>set l. c \<noteq> LF \<and> c \<noteq> NUL \<and> c \<noteq> DQ"
    and opts: "delimiter_of opts \<noteq> [LF]" "commentChar_of opts \<noteq> [LF]"
  shows "lscan opts (lineState rs p n) (l @ LF # rest) =
           lscan opts (lineState (rs @ lineRows opts l) (p + length l + 1) (n + 1)) rest"
proof (cases "l \<noteq> [] \<and> [hd l] = commentChar_of opts")
  case True
  then obtain c l' where l: "l = c # l'" and c: "[c] = commentChar_of opts"
    by (cases l) auto
  from plain l have "LF \<notin> set (c # l')"
    by auto
  from lscan_comment_line(1) [OF _ c this, of "lineState rs p n" rest] True l show ?thesis
    by (simp add: lineRows_def lineState_def)
next
  case False
  let ?st = "lineState rs p n"
  let ?fs = "splitWhen (\<lambda>c. [c] = delimiter_of opts) [] l"
  let ?st1 = "?st\<lparr>row := map (fieldValue opts False) (butlast ?fs), field := last ?fs,
                 lineStart := l = [], pos := p + length l\<rparr>"
  have "lscan opts ?st (l @ LF # rest) = lscan opts ?st1 (LF # rest)"
    using lscan_segment [OF _ plain, of ?st opts "LF # rest"] False by (simp add: lineState_def)
  also have "\<dots> = lscan opts ((pushRow opts (pushField opts ?st1))
                         \<lparr>lineStart := True, curLineNum := curLineNum ?st1 + 1, pos := pos ?st1 + 1\<rparr>) rest"
    using opts by (intro lscan_LF) (auto simp: lineState_def)
  also have "pushField opts ?st1 = ?st1\<lparr>row := map (fieldValue opts False) ?fs, field := []\<rparr>"
    by (simp add: pushField_fieldValue map_butlast [symmetric] snoc_eq_iff_butlast last_map
        lineState_def)
  finally show ?thesis
    using False by (auto simp add: pushRow_discards lineRows_def Let_def lineState_def)
qed

lemma finish_last_line:
  assumes plain: "\<forall>c\<in>set l. c \<noteq> LF \<and> c \<noteq> NUL \<and> c \<noteq> DQ"
  shows "rows (finish opts (lscan opts (lineState rs p n) l)) = rs @ lineRows opts l"
proof (cases "l \<noteq> [] \<and> [hd l] = commentChar_of opts")
  case True
  then obtain c l' where l: "l = c # l'" and c: "[c] = commentChar_of opts"
    by (cases l) auto
  from plain l have "LF \<notin> set (c # l')"
    by auto
  from lscan_comment_line(2) [OF _ c this, of "lineState rs p n"] True l show ?thesis
    by (simp add: lineRows_def finish_def lineState_def)
next
  case False
  let ?st = "lineState rs p n"
  let ?fs = "splitWhen (\<lambda>c. [c] = delimiter_of opts) [] l"
  let ?st1 = "?st\<lparr>row := map (fieldValue opts False) (butlast ?fs), field := last ?fs,
                 lineStart := l = [], pos := p + length l\<rparr>"
  have scan: "lscan opts ?st l = ?st1"
    using lscan_segment [OF _ plain, of ?st opts "[]"] False by (simp add: lineState_def)
  have pf: "pushField opts ?st1 = ?st1\<lparr>row := map (fieldValue opts False) ?fs, field := []\<rparr>"
    by (simp add: pushField_fieldValue map_butlast [symmetric] snoc_eq_iff_butlast last_map
        lineState_def)
  show ?thesis
  proof (cases "l = []")
    case True
    then show ?thesis
      by (simp add: finish_def lineRows_def fieldValue_def js_trim_def lineState_def)
  next
    case nonempty: False
    have "0 < length (field ?st1) \<or> 0 < length (row ?st1)"
    proof (cases "\<exists>c\<in>set l. [c] = delimiter_of opts")
      case True
      then have "filter (\<lambda>c. [c] = delimiter_of opts) l \<noteq> []"
        by (simp add: filter_empty_conv)
      then have "0 < length (butlast ?fs)"
        by (simp add: length_splitWhen)
      then show ?thesis
        by (simp add: lineState_def)
    next
      case False
      then have "?fs = [l]"
        by (simp add: splitWhen_none)
      with nonempty show ?thesis
        by (simp add: lineState_def)
    qed
    then have "finish opts ?st1 = pushRow opts (pushField opts ?st1)"
      by (simp only: finish_def if_True)
    with scan pf False show ?thesis
      by (auto simp add: pushRow_discards lineRows_def Let_def lineState_def)
  qed
qed


lemma js_trim_Nil [simp]: "js_trim [] = []"
  by (simp add: js_trim_def)

lemma set_js_trim: "set (js_trim s) \<subseteq> set s"
  unfolding js_trim_def
  using set_dropWhileD [of _ isWhiteSpace "rev (dropWhile isWhiteSpace s)"]
    set_dropWhileD [of _ isWhiteSpace s]
  by auto

lemma js_trim_ends:
  assumes "js_trim s \<noteq> []"
  shows "\<not> isWhiteSpace (hd (js_trim s))" and "\<not> isWhiteSpace (last (js_trim s))"
proof -
  let ?a = "dropWhile isWhiteSpace s"
  let ?b = "dropWhile isWhiteSpace (rev ?a)"
  from assms have b: "?b \<noteq> []"
    by (simp add: js_trim_def)
  then have "\<not> isWhiteSpace (hd ?b)"
    by (rule hd_dropWhile)
  with b show "\<not> isWhiteSpace (last (js_trim s))"
    by (simp add: js_trim_def last_rev)
  from b have a: "?a \<noteq> []"
    by (metis dropWhile.simps(1) rev.simps(1))
  then have ha: "\<not> isWhiteSpace (hd ?a)"
    by (rule hd_dropWhile)
  have "rev ?a = takeWhile isWhiteSpace (rev ?a) @ ?b"
    by simp
  then have "last (rev ?a) = last (takeWhile isWhiteSpace (rev ?a) @ ?b)"
    by simp
  also have "\<dots> = last ?b"
    using b by (rule last_appendR)
  finally have "last ?b = hd ?a"
    using a by (simp add: last_rev)
  with ha b show "\<not> isWhiteSpace (hd (js_trim s))"
    by (simp add: js_trim_def hd_rev)
qed

lemma js_trim_id:
  assumes "t \<noteq> []" "\<not> isWhiteSpace (hd t)" "\<not> isWhiteSpace (last t)"
  shows "js_trim t = t"
proof -
  from assms have "dropWhile isWhiteSpace t = t"
    by (cases t) auto
  moreover from assms have "dropWhile isWhiteSpace (rev t) = rev t"
    by (cases "rev t") (auto simp: hd_rev [symmetric])
  ultimately show ?thesis
    by (simp add: js_trim_def)
qed

lemma js_trim_idem [simp]: "js_trim (js_trim s) = js_trim s"
proof (cases "js_trim s = []")
  case False
  then show ?thesis
    by (intro js_trim_id js_trim_ends)
qed simp

lemma not_quoted_no_DQ: "DQ \<notin> set g \<Longrightarrow> \<not> startsWith g [DQ]"
  by (cases g) (auto simp: startsWith_def)

lemma fieldValue_no_DQ:
  assumes "DQ \<notin> set f"
  shows "fieldValue opts False f = (if trim_of opts then js_trim f else f)"
proof (cases "trim_of opts")
  case True
  from assms set_js_trim [of f] have "DQ \<notin> set (js_trim f)"
    by auto
  with True show ?thesis
    by (simp add: fieldValue_def not_quoted_no_DQ)
next
  case False
  with assms show ?thesis
    by (simp add: fieldValue_def not_quoted_no_DQ)
qed

lemma js_trim_fieldValue:
  "DQ \<notin> set f \<Longrightarrow> js_trim (fieldValue opts False f) = js_trim f"
  by (simp add: fieldValue_no_DQ)

section \<open>Termination and cost of the scan\<close>

lemma scan_iterates:
  "\<exists>n. n \<le> length d - pos st \<and> scan opts d st = (step opts d ^^ n) st"
proof (induction opts d st rule: scan.induct)
  case (1 opts d st)
  show ?case
  proof (cases "pos st < length d")
    case True
    with 1 obtain n where n: "n \<le> length d - pos (step opts d st)"
      and eq: "scan opts d (step opts d st) = (step opts d ^^ n) (step opts d st)"
      by blast
    have "Suc n \<le> length d - pos st"
      using n True step_advances [of st opts d] by arith
    moreover have "scan opts d st = (step opts d ^^ Suc n) st"
      using True eq by (subst scan.simps) (simp add: funpow_swap1)
    ultimately show ?thesis by blast
  next
    case False
    then have "scan opts d st = (step opts d ^^ 0) st"
      by (subst scan.simps) simp
    then show ?thesis by blast
  qed
qed

lemma stepReads_le:
  assumes "pos st < length d"
  shows "stepReads opts d st \<le> pos (step opts d st) - pos st + 1"
    and "length d < pos (step opts d st) \<Longrightarrow> stepReads opts d st \<le> length d - pos st + 1"
proof -
  have tw: "length (takeWhile (\<lambda>x. x \<noteq> LF) (drop (pos st) d)) \<le> length d - pos st"
    using length_takeWhile_le [of "\<lambda>x. x \<noteq> LF" "drop (pos st) d"] by simp
  show "stepReads opts d st \<le> pos (step opts d st) - pos st + 1"
    using assms by (auto simp: stepReads_def step_def Let_def skipLine_takeWhile)
  show "stepReads opts d st \<le> length d - pos st + 1" if "length d < pos (step opts d st)"
    using assms that tw by (auto simp: stepReads_def step_def Let_def skipLine_takeWhile)
qed

lemma scanReads_le: "scanReads opts d st \<le> 2 * (length d - pos st) + 1"
proof (induction opts d st rule: scanReads.induct)
  case (1 opts d st)
  show ?case
  proof (cases "pos st < length d")
    case True
    let ?st' = "step opts d st"
    have adv: "pos st < pos ?st'"
      by (rule step_advances)
    have IH: "scanReads opts d ?st' \<le> 2 * (length d - pos ?st') + 1"
      using True 1 by simp
    have unfold: "scanReads opts d st = stepReads opts d st + scanReads opts d ?st'"
      using True by (subst scanReads.simps) simp
    show ?thesis
    proof (cases "pos ?st' < length d")
      case inside: True
      from stepReads_le(1) [OF True, of opts] inside adv IH show ?thesis
        unfolding unfold by arith
    next
      case False
      then have "scanReads opts d ?st' = 0"
        by (subst scanReads.simps) simp
      moreover have "stepReads opts d st \<le> 2 * (length d - pos st) + 1"
      proof (cases "length d < pos ?st'")
        case True
        from stepReads_le(2) [OF \<open>pos st < length d\<close> this] show ?thesis by arith
      next
        case False
        with \<open>\<not> pos ?st' < length d\<close> have "pos ?st' = length d" by simp
        with stepReads_le(1) [OF True, of opts] adv show ?thesis by arith
      qed
      ultimately show ?thesis
        unfolding unfold by simp
    qed
  next
    case False
    then show ?thesis
      by (subst scanReads.simps) simp
  qed
qed

lemma length_replace_crlf: "length (replace_crlf s) \<le> length s"
  by (induction s rule: replace_crlf.induct) auto

lemma length_replace_cr [simp]: "length (replace_cr s) = length s"
  by (induction s) auto

lemma length_preprocess: "length (normalizeEOL (stripBOM data)) \<le> length data"
proof -
  have "length (stripBOM data) \<le> length data"
    by (simp add: stripBOM_def split: list.splits)
  with length_replace_crlf [of "stripBOM data"] show ?thesis
    by (simp add: normalizeEOL_def)
qed

text \<open>
  Every loop of the source is a terminating recursion: the scan is \<open>n\<close> iterations of
  \<open>step\<close> with \<open>n\<close> at most the length of the input, and it reads at most
  \<open>2 * length data + 1\<close> code units of the input.
\<close>

lemma scan_terminates_linear:
  "length (normalizeEOL (stripBOM data)) \<le> length data
   \<and> (\<exists>n. n \<le> length data
          \<and> scan opts (normalizeEOL (stripBOM data)) init
              = (step opts (normalizeEOL (stripBOM data)) ^^ n) init)
   \<and> scanReads opts (normalizeEOL (stripBOM data)) init \<le> 2 * length data + 1"
proof -
  let ?d = "normalizeEOL (stripBOM data)"
  have len: "length ?d \<le> length data"
    by (rule length_preprocess)
  obtain n where "n \<le> length ?d - pos init" "scan opts ?d init = (step opts ?d ^^ n) init"
    using scan_iterates by blast
  with len have iter: "\<exists>n. n \<le> length data \<and> scan opts ?d init = (step opts ?d ^^ n) init"
    by (intro exI [of _ n]) simp
  have "scanReads opts ?d init \<le> 2 * (length ?d - pos init) + 1"
    by (rule scanReads_le)
  with len have reads: "scanReads opts ?d init \<le> 2 * length data + 1"
    by simp
  from len iter reads show ?thesis by blast
qed

section \<open>Line endings\<close>

lemma replace_crlf_Cons: "c \<noteq> CR \<Longrightarrow> replace_crlf (c # s) = c # replace_crlf s"
  by (cases s) auto

lemma replace_crlf_no_LF: "LF \<notin> set s \<Longrightarrow> replace_crlf s = s"
  by (induction s rule: replace_crlf.induct) auto

lemma replace_crlf_no_CR: "CR \<notin> set s \<Longrightarrow> replace_crlf s = s"
  by (induction s rule: replace_crlf.induct) auto

lemma replace_cr_no_CR: "CR \<notin> set s \<Longrightarrow> replace_cr s = s"
  by (induction s) auto

lemma normalizeEOL_no_CR: "CR \<notin> set s \<Longrightarrow> normalizeEOL s = s"
  by (simp add: normalizeEOL_def replace_crlf_no_CR replace_cr_no_CR)

lemma replace_crlf_withCRLF: "CR \<notin> set t \<Longrightarrow> replace_crlf (withCRLF t) = t"
  by (induction t) (auto simp: withCRLF_def replace_crlf_Cons)

lemma normalizeEOL_withCRLF: "CR \<notin> set t \<Longrightarrow> normalizeEOL (withCRLF t) = t"
  by (simp add: normalizeEOL_def replace_crlf_withCRLF replace_cr_no_CR)

lemma LF_notin_withCR: "LF \<notin> set (withCR t)"
  by (auto simp: withCR_def)

lemma replace_cr_withCR: "CR \<notin> set t \<Longrightarrow> replace_cr (withCR t) = t"
  by (induction t) (auto simp: withCR_def)

lemma normalizeEOL_withCR: "CR \<notin> set t \<Longrightarrow> normalizeEOL (withCR t) = t"
  by (simp add: normalizeEOL_def replace_crlf_no_LF [OF LF_notin_withCR] replace_cr_withCR)

lemma stripBOM_withCRLF: "stripBOM (withCRLF t) = withCRLF (stripBOM t)"
  by (cases t) (auto simp: stripBOM_def withCRLF_def)

lemma stripBOM_withCR: "stripBOM (withCR t) = withCR (stripBOM t)"
  by (cases t) (auto simp: stripBOM_def withCR_def)

lemma set_stripBOM: "set (stripBOM t) \<subseteq> set t"
  by (auto simp: stripBOM_def split: list.splits if_splits)

text \<open>
  C6. For a text without carriage returns, writing every newline as \<open>\r\n\<close> or as \<open>\r\<close>
  changes neither the rows nor the records: the two replacements of line 28 give back the
  text itself.
\<close>

theorem line_ending_independence:
  assumes "CR \<notin> set t"
  shows "parseCSV argLimit opts (withCRLF t) = parseCSV argLimit opts t
         \<and> parseCSV argLimit opts (withCR t) = parseCSV argLimit opts t
         \<and> tokenize opts (withCRLF t) = tokenize opts t \<and> tokenize opts (withCR t) = tokenize opts t"
proof -
  from assms set_stripBOM [of t] have no: "CR \<notin> set (stripBOM t)"
    by blast
  have "normalizeEOL (stripBOM (withCRLF t)) = normalizeEOL (stripBOM t)"
    by (simp add: stripBOM_withCRLF normalizeEOL_withCRLF [OF no] normalizeEOL_no_CR [OF no])
  then have crlf: "tokenize opts (withCRLF t) = tokenize opts t"
    by (simp add: tokenize_def)
  have "normalizeEOL (stripBOM (withCR t)) = normalizeEOL (stripBOM t)"
    by (simp add: stripBOM_withCR normalizeEOL_withCR [OF no] normalizeEOL_no_CR [OF no])
  then have cr: "tokenize opts (withCR t) = tokenize opts t"
    by (simp add: tokenize_def)
  from crlf cr show ?thesis
    by (simp add: parseCSV_def)
qed

theorem line_ending_independence_witness:
  "CR \<notin> set (js ''a,b'' @ [LF] @ js ''1,2'' @ [LF])
   \<and> tokenize defaults (js ''a,b'' @ [CR, LF] @ js ''1,2'' @ [CR, LF])
       = [[js ''a'', js ''b''], [js ''1'', js ''2'']]
   \<and> tokenize defaults (js ''a,b'' @ [CR] @ js ''1,2'' @ [CR])
       = [[js ''a'', js ''b''], [js ''1'', js ''2'']]
   \<and> tokenize defaults (js ''a,b'' @ [LF] @ js ''1,2'' @ [LF])
       = [[js ''a'', js ''b''], [js ''1'', js ''2'']]
   \<and> (\<forall>argLimit. parseCSV argLimit defaults (js ''a,b'' @ [CR, LF] @ js ''1,2'' @ [CR, LF])
                    = parseCSV argLimit defaults (js ''a,b'' @ [LF] @ js ''1,2'' @ [LF]))
   \<and> (\<forall>argLimit. parseCSV argLimit defaults (js ''a,b'' @ [CR] @ js ''1,2'' @ [CR])
                    = parseCSV argLimit defaults (js ''a,b'' @ [LF] @ js ''1,2'' @ [LF]))"
proof -
  let ?t = "js ''a,b'' @ [LF] @ js ''1,2'' @ [LF]"
  have crlf: "withCRLF ?t = js ''a,b'' @ [CR, LF] @ js ''1,2'' @ [CR, LF]"
    by (simp add: withCRLF_def js_def)
  have cr: "withCR ?t = js ''a,b'' @ [CR] @ js ''1,2'' @ [CR]"
    by (simp add: withCR_def js_def)
  have no: "CR \<notin> set ?t"
    by (simp add: js_def)
  have rows: "tokenize defaults ?t = [[js ''a'', js ''b''], [js ''1'', js ''2'']]"
    by code_simp
  show ?thesis
    using line_ending_independence [OF no, where opts = defaults] no rows
    unfolding crlf cr by simp
qed

section \<open>Building records\<close>

lemma buildObj_objUpTo: "buildObj h r = objUpTo h r (length h)"
  by (simp add: buildObj_def objUpTo_def cell_def)

lemma objUpTo_Suc: "objUpTo h r (Suc n) = obj_set (objUpTo h r n) (h ! n) (cell r n)"
  by (simp add: objUpTo_def)

lemma objUpTo_dom: "n \<le> length h \<Longrightarrow> dom (objUpTo h r n) = set (take n h) - {js ''__proto__''}"
proof (induction n)
  case 0
  show ?case by (simp add: objUpTo_def)
next
  case (Suc n)
  then show ?case
    by (auto simp: objUpTo_Suc obj_set_def take_Suc_conv_app_nth)
qed

lemma objUpTo_last:
  "j < n \<Longrightarrow> h ! j \<noteq> js ''__proto__'' \<Longrightarrow> (\<And>k. j < k \<Longrightarrow> k < n \<Longrightarrow> h ! k \<noteq> h ! j)
     \<Longrightarrow> objUpTo h r n (h ! j) = Some (cell r j)"
proof (induction n)
  case 0
  then show ?case by simp
next
  case (Suc n)
  show ?case
  proof (cases "j = n")
    case True
    with Suc.prems show ?thesis
      by (simp add: objUpTo_Suc obj_set_def)
  next
    case False
    with Suc.prems have j: "j < n" by simp
    with Suc.prems have "h ! n \<noteq> h ! j" by simp
    moreover have "objUpTo h r n (h ! j) = Some (cell r j)"
      using Suc.IH j Suc.prems by simp
    ultimately show ?thesis
      by (simp add: objUpTo_Suc obj_set_def)
  qed
qed

lemma buildObj_dom: "dom (buildObj h r) = set h - {js ''__proto__''}"
  using objUpTo_dom [of "length h" h r] by (simp add: buildObj_objUpTo)

lemma buildObj_last_occurrence:
  assumes "j < length h" "h ! j \<noteq> js ''__proto__''" "\<And>k. j < k \<Longrightarrow> k < length h \<Longrightarrow> h ! k \<noteq> h ! j"
  shows "buildObj h r (h ! j) = Some (if j < length r then r ! j else [])"
  using objUpTo_last [of j "length h" h r] assms
  by (simp add: buildObj_objUpTo cell_def js_at_def)

lemma buildObj_take: "buildObj h (take (length h) r) = buildObj h r"
  unfolding buildObj_def
  by (rule fold_cong) (auto simp: js_at_def)

lemma buildObj_short_row: "buildObj [js ''a'', js ''b'', js ''c''] [js ''1'', js ''2'']
   = [js ''a'' \<mapsto> js ''1'', js ''b'' \<mapsto> js ''2'', js ''c'' \<mapsto> []]"
  by (simp add: buildObj_def obj_set_def js_at_def js_def upt_rec)

lemma buildObj_long_row: "buildObj [js ''a'', js ''b'', js ''c''] [js ''1'', js ''2'', js ''3'', js ''4'']
   = [js ''a'' \<mapsto> js ''1'', js ''b'' \<mapsto> js ''2'', js ''c'' \<mapsto> js ''3'']"
  by (simp add: buildObj_def obj_set_def js_at_def js_def upt_rec)

lemma buildObj_duplicate: "buildObj [js ''a'', js ''a''] [js ''1'', js ''2'']
   = [js ''a'' \<mapsto> js ''2'']"
  by (simp add: buildObj_def obj_set_def js_at_def js_def upt_rec)

text \<open>
  C7, as amended. With a header row \<open>h\<close>, the records are \<open>buildObj h\<close> of the data rows, and
  no exception is raised. In each record a header name other than \<open>__proto__\<close> maps to the
  row's value at the position of the name's last occurrence in the header (for distinct
  names: at the same position), and to the empty string when the row has no such position.
  Every key of a record is a header name and every header name other than \<open>__proto__\<close> is a
  key; the values at positions beyond the header count are dropped. Under the header
  \<open>["a","b","c"]\<close> the row \<open>["1","2"]\<close> gives \<open>{a:"1", b:"2", c:""}\<close> and the row
  \<open>["1","2","3","4"]\<close> gives \<open>{a:"1", b:"2", c:"3"}\<close>. Nothing is said of a header name
  \<open>__proto__\<close>.
\<close>

theorem ragged_rows_record:
  assumes "hasHeader_of opts" and "tokenize opts data = h # rs"
  shows "parseCSV argLimit opts data = Inr (map (buildObj h) rs)
    \<and> (\<forall>r j. j < length h \<and> h ! j \<noteq> js ''__proto__''
             \<and> (\<forall>k. j < k \<and> k < length h \<longrightarrow> h ! k \<noteq> h ! j)
           \<longrightarrow> buildObj h r (h ! j) = Some (if j < length r then r ! j else []))
    \<and> (\<forall>r. dom (buildObj h r) \<subseteq> set h
             \<and> set h - {js ''__proto__''} \<subseteq> dom (buildObj h r)
             \<and> buildObj h (take (length h) r) = buildObj h r)
    \<and> buildObj [js ''a'', js ''b'', js ''c''] [js ''1'', js ''2'']
         = [js ''a'' \<mapsto> js ''1'', js ''b'' \<mapsto> js ''2'', js ''c'' \<mapsto> []]
    \<and> buildObj [js ''a'', js ''b'', js ''c''] [js ''1'', js ''2'', js ''3'', js ''4'']
         = [js ''a'' \<mapsto> js ''1'', js ''b'' \<mapsto> js ''2'', js ''c'' \<mapsto> js ''3'']"
proof -
  from assms have "parseCSV argLimit opts data = Inr (map (buildObj h) rs)"
    by (simp add: parseCSV_def)
  moreover have "buildObj h r (h ! j) = Some (if j < length r then r ! j else [])"
    if "j < length h" "h ! j \<noteq> js ''__proto__''" "\<forall>k. j < k \<and> k < length h \<longrightarrow> h ! k \<noteq> h ! j"
    for r j
    using that by (intro buildObj_last_occurrence) auto
  moreover have "dom (buildObj h r) \<subseteq> set h" and "set h - {js ''__proto__''} \<subseteq> dom (buildObj h r)"
    for r
    by (simp_all add: buildObj_dom)
  ultimately show ?thesis
    using buildObj_take buildObj_short_row buildObj_long_row by blast
qed

theorem ragged_rows_record_witness:
  "hasHeader_of defaults
   \<and> tokenize defaults (js ''a,b,c'' @ [LF] @ js ''1,2'' @ [LF] @ js ''1,2,3,4'' @ [LF])
       = [js ''a'', js ''b'', js ''c'']
         # [[js ''1'', js ''2''], [js ''1'', js ''2'', js ''3'', js ''4'']]
   \<and> (\<forall>argLimit.
          parseCSV argLimit defaults (js ''a,b,c'' @ [LF] @ js ''1,2'' @ [LF] @ js ''1,2,3,4'' @ [LF])
            = Inr [[js ''a'' \<mapsto> js ''1'', js ''b'' \<mapsto> js ''2'', js ''c'' \<mapsto> []],
                   [js ''a'' \<mapsto> js ''1'', js ''b'' \<mapsto> js ''2'', js ''c'' \<mapsto> js ''3'']])"
proof -
  let ?d = "js ''a,b,c'' @ [LF] @ js ''1,2'' @ [LF] @ js ''1,2,3,4'' @ [LF]"
  have hh: "hasHeader_of defaults"
    by (simp add: hasHeader_of_defaults)
  have tk: "tokenize defaults ?d
              = [js ''a'', js ''b'', js ''c'']
                # [[js ''1'', js ''2''], [js ''1'', js ''2'', js ''3'', js ''4'']]"
    by code_simp
  from ragged_rows_record [OF hh tk]
  have "parseCSV argLimit defaults ?d
          = Inr (map (buildObj [js ''a'', js ''b'', js ''c''])
                   [[js ''1'', js ''2''], [js ''1'', js ''2'', js ''3'', js ''4'']])"
    for argLimit
    by (rule conjunct1)
  with hh tk show ?thesis
    by (simp only: list.map buildObj_short_row buildObj_long_row simp_thms)
qed

text \<open>
  The claim as stated fails for a header that repeats a name: under the header
  \<open>["a","a"]\<close> the row \<open>["1","2"]\<close> gives \<open>{a:"2"}\<close>, so the name at position 0 does not map
  to the row's value at position 0.
\<close>

theorem duplicate_header_counterexample:
  "tokenize defaults (js ''a,a'' @ [LF] @ js ''1,2'') = [[js ''a'', js ''a''], [js ''1'', js ''2'']]
   \<and> (\<forall>argLimit. parseCSV argLimit defaults (js ''a,a'' @ [LF] @ js ''1,2'')
                      = Inr [[js ''a'' \<mapsto> js ''2'']])
   \<and> ([[js ''a'' \<mapsto> js ''2'']] ! 0) ([js ''a'', js ''a''] ! 0) \<noteq> Some ([js ''1'', js ''2''] ! 0)"
proof -
  let ?d = "js ''a,a'' @ [LF] @ js ''1,2''"
  have tk: "tokenize defaults ?d = [[js ''a'', js ''a''], [js ''1'', js ''2'']]"
    by code_simp
  have recs: "parseCSV argLimit defaults ?d = Inr [[js ''a'' \<mapsto> js ''2'']]" for argLimit
    unfolding parseCSV_def tk Let_def by (simp add: hasHeader_of_defaults buildObj_duplicate)
  have "([[js ''a'' \<mapsto> js ''2'']] ! 0) ([js ''a'', js ''a''] ! 0) \<noteq> Some ([js ''1'', js ''2''] ! 0)"
    by (simp add: js_def)
  with tk recs show ?thesis
    by (simp only: simp_thms)
qed

section \<open>Field finalization\<close>

lemma startsWith_DQ: "startsWith s [DQ] \<longleftrightarrow> s \<noteq> [] \<and> hd s = DQ"
  by (cases s) (auto simp: startsWith_def)

lemma endsWith_DQ: "endsWith s [DQ] \<longleftrightarrow> s \<noteq> [] \<and> last s = DQ"
proof (cases s rule: rev_cases)
  case Nil
  then show ?thesis by (simp add: endsWith_def)
next
  case (snoc xs x)
  then show ?thesis by (auto simp: endsWith_def)
qed

lemma quoted_shape:
  assumes "2 \<le> length s" "hd s = DQ" "last s = DQ"
  shows "s = DQ # butlast (tl s) @ [DQ]"
proof -
  from assms obtain t where s: "s = DQ # t" and "t \<noteq> []"
    by (cases s) (auto simp: Suc_le_eq)
  with assms have "last t = DQ" by simp
  with \<open>t \<noteq> []\<close> have "t = butlast t @ [DQ]"
    using append_butlast_last_id [of t] by simp
  with s show ?thesis by simp
qed

lemma replace_dqdq_no_pair: "\<not> adjacentDQ s \<Longrightarrow> replace_dqdq s = s"
  by (induction s rule: replace_dqdq.induct) auto

lemma replace_dqdq_first_pair:
  "\<not> adjacentDQ xs \<Longrightarrow> xs = [] \<or> last xs \<noteq> DQ
     \<Longrightarrow> replace_dqdq (xs @ DQ # DQ # ys) = xs @ DQ # replace_dqdq ys"
  by (induction xs rule: replace_dqdq.induct) auto

lemma pushField_row:
  "pushField opts st =
     st\<lparr>row := row st @
        [let f1 = (if \<not> inQuotes st \<and> trim_of opts then js_trim (field st) else field st)
         in if 2 \<le> length f1 \<and> hd f1 = DQ \<and> last f1 = DQ then replace_dqdq (butlast (tl f1)) else f1],
        field := []\<rparr>"
  by (auto simp: pushField_def Let_def startsWith_DQ endsWith_DQ)

text \<open>
  C2. When the buffer that \<open>pushField\<close> finalizes (trimmed unless a quote is open or \<open>trim\<close>
  is off) has at least two units and starts and ends with a double quote, it is
  \<open>" inner "\<close> and the field pushed is \<open>inner\<close> with every doubled quote replaced by one quote,
  leftmost pairs first: a text without a doubled quote is unchanged, and the first doubled
  quote of a text becomes one quote before the rest is treated in the same way. The lone
  field \<open>"a""b"\<close> has the value \<open>a"b\<close>.
\<close>

theorem pushField_unquotes:
  assumes "buf = (if \<not> inQuotes st \<and> trim_of opts then js_trim (field st) else field st)"
    and "2 \<le> length buf" and "hd buf = DQ" and "last buf = DQ"
  shows "(\<exists>inner. buf = DQ # inner @ [DQ]
            \<and> pushField opts st = st\<lparr>row := row st @ [replace_dqdq inner], field := []\<rparr>)
    \<and> (\<forall>xs. \<not> adjacentDQ xs \<longrightarrow> replace_dqdq xs = xs)
    \<and> (\<forall>xs ys. \<not> adjacentDQ xs \<and> (xs = [] \<or> last xs \<noteq> DQ)
          \<longrightarrow> replace_dqdq (xs @ DQ # DQ # ys) = xs @ DQ # replace_dqdq ys)
    \<and> tokenize defaults (DQ # js ''a'' @ [DQ, DQ] @ js ''b'' @ [DQ]) = [[js ''a'' @ [DQ] @ js ''b'']]"
proof -
  have shape: "buf = DQ # butlast (tl buf) @ [DQ]"
    using assms(2-4) by (rule quoted_shape)
  have "pushField opts st = st\<lparr>row := row st @ [replace_dqdq (butlast (tl buf))], field := []\<rparr>"
    using assms by (simp add: pushField_row)
  with shape have first: "\<exists>inner. buf = DQ # inner @ [DQ]
            \<and> pushField opts st = st\<lparr>row := row st @ [replace_dqdq inner], field := []\<rparr>"
    by blast
  have example: "tokenize defaults (DQ # js ''a'' @ [DQ, DQ] @ js ''b'' @ [DQ]) = [[js ''a'' @ [DQ] @ js ''b'']]"
    by code_simp
  from first example show ?thesis
    using replace_dqdq_no_pair replace_dqdq_first_pair by blast
qed

theorem pushField_unquotes_witness:
  "2 \<le> length (js_trim ([0x20, DQ] @ js ''a'' @ [DQ, DQ] @ js ''b'' @ [DQ, 0x20]))
   \<and> js_trim ([0x20, DQ] @ js ''a'' @ [DQ, DQ] @ js ''b'' @ [DQ, 0x20]) = DQ # (js ''a'' @ [DQ, DQ] @ js ''b'') @ [DQ]
   \<and> pushField defaults (init\<lparr>field := [0x20, DQ] @ js ''a'' @ [DQ, DQ] @ js ''b'' @ [DQ, 0x20]\<rparr>)
       = init\<lparr>row := [js ''a'' @ [DQ] @ js ''b''], field := []\<rparr>"
proof -
  let ?f = "[0x20, DQ] @ js ''a'' @ [DQ, DQ] @ js ''b'' @ [DQ, 0x20]"
  let ?st = "init\<lparr>field := ?f\<rparr>"
  have tr: "js_trim ?f = DQ # (js ''a'' @ [DQ, DQ] @ js ''b'') @ [DQ]"
    by code_simp
  have buf: "js_trim ?f = (if \<not> inQuotes ?st \<and> trim_of defaults then js_trim (field ?st) else field ?st)"
    by (simp add: init_def trim_of_def defaults_def)
  have len: "2 \<le> length (js_trim ?f)" and h: "hd (js_trim ?f) = DQ" and l: "last (js_trim ?f) = DQ"
    unfolding tr by simp_all
  from pushField_unquotes [OF buf len h l]
  obtain inner where "js_trim ?f = DQ # inner @ [DQ]"
    and p: "pushField defaults ?st = ?st\<lparr>row := row ?st @ [replace_dqdq inner], field := []\<rparr>"
    by blast
  with tr have "inner = js ''a'' @ [DQ, DQ] @ js ''b''"
    by simp
  moreover have "replace_dqdq (js ''a'' @ [DQ, DQ] @ js ''b'') = js ''a'' @ [DQ] @ js ''b''"
    by (simp add: js_def)
  ultimately have "pushField defaults ?st = init\<lparr>row := [js ''a'' @ [DQ] @ js ''b''], field := []\<rparr>"
    using p by (simp add: init_def)
  with len tr show ?thesis
    by (simp only: simp_thms)
qed

section \<open>The number of rows\<close>

lemma splitWhen_first:
  "\<forall>x\<in>set l. \<not> P x \<Longrightarrow> P y \<Longrightarrow> splitWhen P acc (l @ y # rest) = (acc @ l) # splitWhen P [] rest"
  by (induction l arbitrary: acc) auto

lemma set_splitWhen: "l \<in> set (splitWhen P acc xs) \<Longrightarrow> set l \<subseteq> set acc \<union> set xs"
proof (induction xs arbitrary: acc)
  case Nil
  then show ?case by simp
next
  case (Cons x xs)
  show ?case
  proof (cases "P x")
    case True
    with Cons.prems have "l = acc \<or> l \<in> set (splitWhen P [] xs)"
      by simp
    with Cons.IH [of "[]"] show ?thesis
      by auto
  next
    case False
    with Cons.prems have "l \<in> set (splitWhen P (acc @ [x]) xs)"
      by simp
    from Cons.IH [OF this] show ?thesis
      by auto
  qed
qed

lemma pos_lineState [simp]: "pos (lineState rs p n) = p"
  by (simp add: lineState_def)

lemma rows_quote_free:
  assumes opts: "delimiter_of opts \<noteq> [LF]" "commentChar_of opts \<noteq> [LF]"
  shows "\<forall>c\<in>set d. c \<noteq> NUL \<and> c \<noteq> DQ \<Longrightarrow>
         rows (finish opts (lscan opts (lineState rs p n) d))
           = rs @ concat (map (lineRows opts) (splitWhen (\<lambda>c. c = LF) [] d))"
proof (induction d arbitrary: rs p n rule: length_induct)
  case (1 d)
  show ?case
  proof (cases "LF \<in> set d")
    case True
    then obtain l rest where d: "d = l @ LF # rest" and l: "LF \<notin> set l"
      by (auto dest: split_list_first)
    from d "1.prems" l have plain: "\<forall>c\<in>set l. c \<noteq> LF \<and> c \<noteq> NUL \<and> c \<noteq> DQ"
      by auto
    from d "1.prems" have rest: "\<forall>c\<in>set rest. c \<noteq> NUL \<and> c \<noteq> DQ"
      by auto
    from d have shorter: "length rest < length d"
      by simp
    have "splitWhen (\<lambda>c. c = LF) [] d = l # splitWhen (\<lambda>c. c = LF) [] rest"
      unfolding d using l by (subst splitWhen_first) auto
    moreover have "lscan opts (lineState rs p n) d
        = lscan opts (lineState (rs @ lineRows opts l) (p + length l + 1) (n + 1)) rest"
      unfolding d by (rule lscan_line [OF plain opts])
    moreover have "rows (finish opts (lscan opts (lineState (rs @ lineRows opts l) (p + length l + 1) (n + 1)) rest))
        = (rs @ lineRows opts l) @ concat (map (lineRows opts) (splitWhen (\<lambda>c. c = LF) [] rest))"
      using "1.IH" shorter rest by blast
    ultimately show ?thesis
      by simp
  next
    case False
    with "1.prems" have plain: "\<forall>c\<in>set d. c \<noteq> LF \<and> c \<noteq> NUL \<and> c \<noteq> DQ"
      by auto
    from False have "splitWhen (\<lambda>c. c = LF) [] d = [d]"
      by (subst splitWhen_none) auto
    with finish_last_line [OF plain, of opts rs p n] show ?thesis
      by simp
  qed
qed

lemma set_replace_crlf: "set (replace_crlf s) \<subseteq> set s"
  by (induction s rule: replace_crlf.induct) auto

lemma set_replace_cr: "set (replace_cr s) \<subseteq> insert LF (set s)"
  by (induction s) auto

lemma set_preprocess: "set (normalizeEOL (stripBOM data)) \<subseteq> insert LF (set data)"
  using set_replace_cr [of "replace_crlf (stripBOM data)"] set_replace_crlf [of "stripBOM data"]
    set_stripBOM [of data]
  by (auto simp: normalizeEOL_def)

lemma tokenize_quote_free:
  assumes "\<forall>c\<in>set data. c \<noteq> NUL \<and> c \<noteq> DQ"
    and "delimiter_of opts \<noteq> [LF]" "commentChar_of opts \<noteq> [LF]"
  shows "tokenize opts data
           = concat (map (lineRows opts) (splitWhen (\<lambda>c. c = LF) [] (normalizeEOL (stripBOM data))))"
proof -
  let ?d = "normalizeEOL (stripBOM data)"
  from assms(1) set_preprocess [of data] have "\<forall>c\<in>set ?d. c \<noteq> NUL \<and> c \<noteq> DQ"
    by auto
  from rows_quote_free [OF assms(2,3) this, of "[]" 0 1] show ?thesis
    by (simp add: tokenize_rows scan_lscan init_lineState)
qed

lemma length_concat_singletons:
  "(\<And>x. length (f x) \<le> 1) \<Longrightarrow> length (concat (map f xs)) = length (filter (\<lambda>x. f x \<noteq> []) xs)"
proof (induction xs)
  case (Cons x xs)
  from Cons.prems [of x] have "length (f x) = (if f x = [] then 0 else 1)"
    by (cases "f x") auto
  with Cons show ?case by simp
qed simp

subsection \<open>Lines with quoted fields\<close>

lemma rawFields_nonempty [simp]: "rawFields opts q f l \<noteq> []"
  by (induction opts q f l rule: rawFields.induct) auto

lemma rows_finish_push: "rows (finish opts st) = rows (pushRow opts (pushField opts st))"
  by (auto simp: finish_def pushField_fieldValue pushRow_discards fieldValue_def discards_def)

lemma lscan_quoted_segment:
  "wellQuoted opts q (f = []) l \<Longrightarrow> unbroken q l \<Longrightarrow> rest = [] \<or> hd rest \<noteq> DQ \<Longrightarrow> (ls \<longrightarrow> \<not> q) \<Longrightarrow>
   \<not> (ls \<and> l \<noteq> [] \<and> [hd l] = commentChar_of opts) \<Longrightarrow> delimiter_of opts \<noteq> [LF] \<Longrightarrow>
   delimiter_of opts \<noteq> [DQ] \<Longrightarrow>
   lscan opts \<lparr>rows = rs, row = r, field = f, inQuotes = q, pos = p, lineStart = ls, curLineNum = n\<rparr> (l @ rest)
     = lscan opts \<lparr>rows = rs, row = r @ map (fieldValue opts False) (butlast (rawFields opts q f l)),
                  field = last (rawFields opts q f l), inQuotes = quoteAfter q l, pos = p + length l,
                  lineStart = (ls \<and> l = []), curLineNum = n + length (filter (\<lambda>c. c = LF) l)\<rparr> rest"
proof (induction l arbitrary: q f r p ls n rule: length_induct)
  case (1 l)
  show ?case
  proof (cases l)
    case Nil
    with "1.prems" show ?thesis by simp
  next
    case (Cons c cs)
    let ?S = "\<lparr>rows = rs, row = r, field = f, inQuotes = q, pos = p, lineStart = ls, curLineNum = n\<rparr>"
    from "1.prems" Cons have nc: "\<not> (ls \<and> [c] = commentChar_of opts)" by simp
    note dl = \<open>delimiter_of opts \<noteq> [LF]\<close> \<open>delimiter_of opts \<noteq> [DQ]\<close>
    show ?thesis
    proof (cases q)
      case True
      with "1.prems" have ls: "\<not> ls" by simp
      show ?thesis
      proof (cases "c = DQ")
        case dq: True
        show ?thesis
        proof (cases "cs \<noteq> [] \<and> hd cs = DQ")
          case False
          have "lscan opts ?S ((c # cs) @ rest)
                = lscan opts \<lparr>rows = rs, row = r, field = f @ [DQ], inQuotes = False, pos = p + 1, lineStart = False, curLineNum = n\<rparr> (cs @ rest)"
            unfolding append_Cons using True dq False ls "1.prems"(3)
            by (subst lscan_Cons) (cases cs; cases rest; auto simp: lstep_def js_at_def)
          also have "\<dots> = lscan opts \<lparr>rows = rs, row = r @ map (fieldValue opts False) (butlast (rawFields opts False (f @ [DQ]) cs)),
                  field = last (rawFields opts False (f @ [DQ]) cs), inQuotes = quoteAfter False cs, pos = p + 1 + length cs,
                  lineStart = (False \<and> cs = []), curLineNum = n + length (filter (\<lambda>c. c = LF) cs)\<rparr> rest"
            using "1.prems" True dq False Cons
            by (intro "1.IH" [rule_format]) auto
          finally show ?thesis
            using True dq False ls \<open>l = c # cs\<close> by auto
        next
          case esc: True
          then obtain cs' where cs: "cs = DQ # cs'" by (cases cs) auto
          have "lscan opts ?S ((c # cs) @ rest)
                = lscan opts \<lparr>rows = rs, row = r, field = f @ [DQ], inQuotes = True, pos = p + 2, lineStart = False, curLineNum = n\<rparr> (cs' @ rest)"
            unfolding append_Cons using True dq cs ls
            by (subst lscan_Cons) (auto simp: lstep_def js_at_def)
          also have "\<dots> = lscan opts \<lparr>rows = rs, row = r @ map (fieldValue opts False) (butlast (rawFields opts True (f @ [DQ]) cs')),
                  field = last (rawFields opts True (f @ [DQ]) cs'), inQuotes = quoteAfter True cs', pos = p + 2 + length cs',
                  lineStart = (False \<and> cs' = []), curLineNum = n + length (filter (\<lambda>c. c = LF) cs')\<rparr> rest"
            using "1.prems" True dq cs Cons
            by (intro "1.IH" [rule_format]) auto
          finally show ?thesis
            using True dq cs ls \<open>l = c # cs\<close> by simp
        qed
      next
        case False
        have "lscan opts ?S ((c # cs) @ rest)
                = lscan opts \<lparr>rows = rs, row = r, field = f @ [c], inQuotes = True, pos = p + 1, lineStart = False,
                     curLineNum = n + (if c = LF then 1 else 0)\<rparr> (cs @ rest)"
          unfolding append_Cons using True False ls
          by (subst lscan_Cons) (auto simp: lstep_def)
        also have "\<dots> = lscan opts \<lparr>rows = rs, row = r @ map (fieldValue opts False) (butlast (rawFields opts True (f @ [c]) cs)),
                  field = last (rawFields opts True (f @ [c]) cs), inQuotes = quoteAfter True cs, pos = p + 1 + length cs,
                  lineStart = (False \<and> cs = []), curLineNum = n + (if c = LF then 1 else 0) + length (filter (\<lambda>c. c = LF) cs)\<rparr> rest"
          using "1.prems" True False Cons
          by (intro "1.IH" [rule_format]) auto
        finally show ?thesis
          using True False ls \<open>l = c # cs\<close> by simp
      qed
    next
      case False
      show ?thesis
      proof (cases "[c] = delimiter_of opts")
        case True
        with dl have cd: "c \<noteq> LF" "c \<noteq> DQ"
          by auto
        have "lscan opts ?S ((c # cs) @ rest)
                = lscan opts \<lparr>rows = rs, row = r @ [fieldValue opts False f], field = [], inQuotes = False, pos = p + 1, lineStart = False,
                     curLineNum = n\<rparr> (cs @ rest)"
          unfolding append_Cons using True False nc
          by (subst lscan_Cons) (auto simp: lstep_def pushField_fieldValue)
        also have "\<dots> = lscan opts \<lparr>rows = rs, row = (r @ [fieldValue opts False f]) @ map (fieldValue opts False) (butlast (rawFields opts False [] cs)),
                  field = last (rawFields opts False [] cs), inQuotes = quoteAfter False cs, pos = p + 1 + length cs,
                  lineStart = (False \<and> cs = []), curLineNum = n + length (filter (\<lambda>c. c = LF) cs)\<rparr> rest"
          using "1.prems" True False Cons cd
          by (intro "1.IH" [rule_format]) auto
        finally show ?thesis
          using True False \<open>l = c # cs\<close> cd by auto
      next
        case nd: False
        from "1.prems"(1,2) Cons False nd have c: "c \<noteq> LF" "c \<noteq> NUL"
          by (auto split: if_splits)
        have "lscan opts ?S ((c # cs) @ rest)
                = lscan opts \<lparr>rows = rs, row = r, field = f @ [c], inQuotes = (c = DQ), pos = p + 1, lineStart = False,
                     curLineNum = n\<rparr> (cs @ rest)"
          unfolding append_Cons using "1.prems"(1) Cons False nd c nc
          by (subst lscan_Cons) (auto simp: lstep_def)
        also have "\<dots> = lscan opts \<lparr>rows = rs, row = r @ map (fieldValue opts False) (butlast (rawFields opts (c = DQ) (f @ [c]) cs)),
                  field = last (rawFields opts (c = DQ) (f @ [c]) cs), inQuotes = quoteAfter (c = DQ) cs, pos = p + 1 + length cs,
                  lineStart = (False \<and> cs = []), curLineNum = n + length (filter (\<lambda>c. c = LF) cs)\<rparr> rest"
          using "1.prems" False nd c Cons
          by (intro "1.IH" [rule_format]) (auto split: if_splits)
        finally show ?thesis
          using "1.prems"(1) False nd c \<open>l = c # cs\<close> by (auto split: if_splits)
      qed
    qed
  qed
qed

lemma unbroken_no_LF: "unbroken False l \<Longrightarrow> DQ \<notin> set l \<Longrightarrow> LF \<notin> set l"
  by (induction l) (auto split: if_splits)

lemma lscan_well_formed_line:
  assumes wf: "wellFormedLine opts l" and one: "unbroken False l" and closed: "\<not> quoteAfter False l"
    and opts: "delimiter_of opts \<noteq> [LF]" "delimiter_of opts \<noteq> [DQ]"
  shows "lscan opts (lineState rs p n) (l @ LF # rest) =
           lscan opts (lineState (rs @ quotedLineRows opts l) (p + length l + 1)
                         (n + length (filter (\<lambda>c. c = LF) l) + 1)) rest"
proof (cases "l \<noteq> [] \<and> [hd l] = commentChar_of opts")
  case True
  then obtain c l' where l: "l = c # l'" and c: "[c] = commentChar_of opts"
    by (cases l) auto
  from wf True have "DQ \<notin> set l"
    by (simp add: wellFormedLine_def)
  with unbroken_no_LF [OF one] l have no: "LF \<notin> set (c # l')"
    by simp
  then have "filter (\<lambda>c. c = LF) l = []"
    unfolding l by (auto simp: filter_empty_conv)
  with lscan_comment_line(1) [OF _ c no, of "lineState rs p n" rest] True l show ?thesis
    by (simp add: quotedLineRows_def lineState_def)
next
  case False
  show ?thesis
  proof (cases "l = [] \<and> [LF] = commentChar_of opts")
    case True
    have "quotedLineRows opts [] = []"
      by (simp add: quotedLineRows_def lineValues_def fieldValue_def Let_def)
    with lscan_comment [of "lineState rs p n" LF opts rest] True show ?thesis
      by (simp add: lineState_def)
  next
    case skip: False
    from False wf have wq: "wellQuoted opts False ([] = ([]::jsstring)) l"
      by (simp add: wellFormedLine_def)
    let ?fs = "rawFields opts False [] l"
    let ?st1 = "\<lparr>rows = rs, row = [] @ map (fieldValue opts False) (butlast ?fs), field = last ?fs,
                 inQuotes = quoteAfter False l, pos = p + length l, lineStart = (True \<and> l = []),
                 curLineNum = n + length (filter (\<lambda>c. c = LF) l)\<rparr>"
    have "lscan opts (lineState rs p n) (l @ LF # rest) = lscan opts ?st1 (LF # rest)"
      unfolding lineState_def using False opts(1,2)
      by (intro lscan_quoted_segment [OF wq one]) auto
    also have "\<dots> = lscan opts ((pushRow opts (pushField opts ?st1))
                           \<lparr>lineStart := True, curLineNum := curLineNum ?st1 + 1, pos := pos ?st1 + 1\<rparr>) rest"
      using opts closed skip by (intro lscan_LF) auto
    also have "pushField opts ?st1 = ?st1\<lparr>row := lineValues opts l, field := []\<rparr>"
      by (simp add: pushField_fieldValue lineValues_def Let_def)
    finally show ?thesis
      using False closed by (auto simp add: pushRow_discards quotedLineRows_def lineState_def)
  qed
qed

lemma finish_well_formed_line:
  assumes wf: "wellFormedLine opts l" and one: "unbroken False l"
    and opts: "delimiter_of opts \<noteq> [LF]" "delimiter_of opts \<noteq> [DQ]"
  shows "rows (finish opts (lscan opts (lineState rs p n) l)) = rs @ quotedLineRows opts l"
proof (cases "l \<noteq> [] \<and> [hd l] = commentChar_of opts")
  case True
  then obtain c l' where l: "l = c # l'" and c: "[c] = commentChar_of opts"
    by (cases l) auto
  from wf True have "DQ \<notin> set l"
    by (simp add: wellFormedLine_def)
  with unbroken_no_LF [OF one] l have no: "LF \<notin> set (c # l')"
    by simp
  from lscan_comment_line(2) [OF _ c no, of "lineState rs p n"] True l show ?thesis
    by (simp add: quotedLineRows_def finish_def lineState_def)
next
  case False
  with wf have wq: "wellQuoted opts False ([] = ([]::jsstring)) l"
    by (simp add: wellFormedLine_def)
  let ?fs = "rawFields opts False [] l"
  let ?st1 = "\<lparr>rows = rs, row = [] @ map (fieldValue opts False) (butlast ?fs), field = last ?fs,
               inQuotes = quoteAfter False l, pos = p + length l, lineStart = (True \<and> l = []),
               curLineNum = n + length (filter (\<lambda>c. c = LF) l)\<rparr>"
  have "lscan opts (lineState rs p n) (l @ []) = lscan opts ?st1 []"
    unfolding lineState_def using False opts
    by (intro lscan_quoted_segment [OF wq one]) auto
  then have scan: "lscan opts (lineState rs p n) l = ?st1"
    by simp
  have pf: "pushField opts ?st1 = ?st1\<lparr>row := lineValues opts l, field := []\<rparr>"
    by (simp add: pushField_fieldValue lineValues_def Let_def)
  show ?thesis
    unfolding scan rows_finish_push pf using False
    by (auto simp add: pushRow_discards quotedLineRows_def)
qed

lemma logicalLines_cases:
  "(logicalLines q acc d = [acc @ d] \<and> unbroken q d)
   \<or> (\<exists>l' d'. d = l' @ LF # d' \<and> logicalLines q acc d = (acc @ l') # logicalLines False [] d'
         \<and> unbroken q l' \<and> \<not> quoteAfter q l')"
proof (induction d arbitrary: q acc)
  case Nil
  show ?case by simp
next
  case (Cons c cs)
  show ?case
  proof (cases "c = LF \<and> \<not> q")
    case True
    then have "c # cs = [] @ LF # cs \<and> logicalLines q acc (c # cs) = (acc @ []) # logicalLines False [] cs
               \<and> unbroken q [] \<and> \<not> quoteAfter q []"
      by simp
    then show ?thesis by blast
  next
    case False
    let ?q = "if c = DQ then \<not> q else q"
    from False have eq: "logicalLines q acc (c # cs) = logicalLines ?q (acc @ [c]) cs"
      by auto
    from False have ub: "unbroken q (c # l) = unbroken ?q l" and qa: "quoteAfter q (c # l) = quoteAfter ?q l" for l
      by auto
    from Cons [of ?q "acc @ [c]"] show ?thesis
    proof
      assume "logicalLines ?q (acc @ [c]) cs = [(acc @ [c]) @ cs] \<and> unbroken ?q cs"
      with eq ub show ?thesis by simp
    next
      assume "\<exists>l' d'. cs = l' @ LF # d' \<and> logicalLines ?q (acc @ [c]) cs
                = ((acc @ [c]) @ l') # logicalLines False [] d' \<and> unbroken ?q l' \<and> \<not> quoteAfter ?q l'"
      then obtain l' d' where "cs = l' @ LF # d'"
        "logicalLines ?q (acc @ [c]) cs = ((acc @ [c]) @ l') # logicalLines False [] d'"
        "unbroken ?q l'" "\<not> quoteAfter ?q l'"
        by blast
      with eq ub qa have "c # cs = (c # l') @ LF # d'
          \<and> logicalLines q acc (c # cs) = (acc @ c # l') # logicalLines False [] d'
          \<and> unbroken q (c # l') \<and> \<not> quoteAfter q (c # l')"
        by simp
      then show ?thesis by blast
    qed
  qed
qed

lemma rows_well_formed:
  assumes opts: "delimiter_of opts \<noteq> [LF]" "delimiter_of opts \<noteq> [DQ]"
  shows "list_all (wellFormedLine opts) (logicalLines False [] d) \<Longrightarrow>
         rows (finish opts (lscan opts (lineState rs p n) d))
           = rs @ concat (map (quotedLineRows opts) (logicalLines False [] d))"
proof (induction d arbitrary: rs p n rule: length_induct)
  case (1 d)
  from logicalLines_cases [of False "[]" d] show ?case
  proof
    assume one: "logicalLines False [] d = [[] @ d] \<and> unbroken False d"
    with "1.prems" have wf: "wellFormedLine opts d"
      by simp
    from finish_well_formed_line [OF wf _ opts] one show ?thesis
      by simp
  next
    assume "\<exists>l' d'. d = l' @ LF # d' \<and> logicalLines False [] d = ([] @ l') # logicalLines False [] d'
              \<and> unbroken False l' \<and> \<not> quoteAfter False l'"
    then obtain l d' where d: "d = l @ LF # d'"
      and ls: "logicalLines False [] d = l # logicalLines False [] d'"
      and one: "unbroken False l" and closed: "\<not> quoteAfter False l"
      by auto
    from ls "1.prems" have wf: "wellFormedLine opts l"
      and rest: "list_all (wellFormedLine opts) (logicalLines False [] d')"
      by simp_all
    from d have shorter: "length d' < length d"
      by simp
    have "lscan opts (lineState rs p n) d
        = lscan opts (lineState (rs @ quotedLineRows opts l) (p + length l + 1)
                        (n + length (filter (\<lambda>c. c = LF) l) + 1)) d'"
      unfolding d by (rule lscan_well_formed_line [OF wf one closed opts])
    moreover have "rows (finish opts (lscan opts (lineState (rs @ quotedLineRows opts l) (p + length l + 1)
                        (n + length (filter (\<lambda>c. c = LF) l) + 1)) d'))
        = (rs @ quotedLineRows opts l) @ concat (map (quotedLineRows opts) (logicalLines False [] d'))"
      using "1.IH" shorter rest by blast
    ultimately show ?thesis
      using ls by simp
  qed
qed

lemma quotedLineRows_empty_iff:
  "quotedLineRows opts l = [] \<longleftrightarrow> commentLine opts l \<or> blankLine opts l"
proof -
  have ne: "lineValues opts l \<noteq> []"
    by (simp add: lineValues_def Let_def)
  then have hd: "lineValues opts l ! 0 = hd (lineValues opts l)"
    by (simp add: hd_conv_nth)
  from ne have pos: "0 < length (lineValues opts l)"
    by simp
  have "discards opts (lineValues opts l) \<longleftrightarrow>
          blankLine opts l \<or> startsWith (js_trim (hd (lineValues opts l))) (commentChar_of opts)"
    unfolding discards_def blankLine_def hd using pos by auto
  then show ?thesis
    unfolding quotedLineRows_def commentLine_def by auto
qed

lemma length_quotedLineRows: "length (quotedLineRows opts l) \<le> 1"
  by (simp add: quotedLineRows_def)

text \<open>
  C4, as amended. Let every logical line of the normalized input be well formed: a line
  whose first unit is the comment character has no double quote, and in any other line
  every double quote outside a quoted field is the first unit of its field and no NUL stands
  outside a quoted field. Let the delimiter be neither the newline nor the double quote.
  Then the number of rows is the number of logical lines that are neither comment lines (the
  first unit is the comment character, or the value of the first field, trimmed, starts
  with it) nor blank lines (a single field, whose value is empty or all whitespace). The
  value of a field is the one \<open>pushField\<close> gives it; a quoted field that the end of the
  input leaves open is finalized as it stands.
\<close>

theorem row_count_well_formed:
  assumes "list_all (wellFormedLine opts) (logicalLines False [] (normalizeEOL (stripBOM data)))"
    and "delimiter_of opts \<noteq> [LF]" and "delimiter_of opts \<noteq> [DQ]"
  shows "length (tokenize opts data)
           = length (filter (\<lambda>l. \<not> commentLine opts l \<and> \<not> blankLine opts l)
                       (logicalLines False [] (normalizeEOL (stripBOM data))))"
proof -
  let ?ls = "logicalLines False [] (normalizeEOL (stripBOM data))"
  have "tokenize opts data = concat (map (quotedLineRows opts) ?ls)"
    using rows_well_formed [OF assms(2,3) assms(1), of "[]" 0 1]
    by (simp add: tokenize_rows scan_lscan init_lineState)
  then have "length (tokenize opts data) = length (filter (\<lambda>l. quotedLineRows opts l \<noteq> []) ?ls)"
    by (simp only: length_concat_singletons [of "quotedLineRows opts", OF length_quotedLineRows])
  then show ?thesis
    by (simp add: quotedLineRows_empty_iff)
qed

theorem row_count_well_formed_witness:
  "logicalLines False []
      (normalizeEOL (stripBOM
         (DQ # js ''x'' @ [LF] @ js ''y'' @ [DQ] @ js '',z'' @ [LF] @ js ''#c'' @ [LF] @ js ''  ''
            @ [LF, DQ, DQ, LF] @ js ''c,'' @ [DQ] @ js ''d'' @ [DQ, DQ] @ js ''e'' @ [DQ, LF]
            @ js ''f,'' @ [DQ] @ js ''g'')))
     = [DQ # js ''x'' @ [LF] @ js ''y'' @ [DQ] @ js '',z'', js ''#c'', js ''  '', [DQ, DQ],
        js ''c,'' @ [DQ] @ js ''d'' @ [DQ, DQ] @ js ''e'' @ [DQ], js ''f,'' @ [DQ] @ js ''g'']
   \<and> list_all (wellFormedLine defaults)
        [DQ # js ''x'' @ [LF] @ js ''y'' @ [DQ] @ js '',z'', js ''#c'', js ''  '', [DQ, DQ],
         js ''c,'' @ [DQ] @ js ''d'' @ [DQ, DQ] @ js ''e'' @ [DQ], js ''f,'' @ [DQ] @ js ''g'']
   \<and> delimiter_of defaults \<noteq> [LF] \<and> delimiter_of defaults \<noteq> [DQ]
   \<and> tokenize defaults
        (DQ # js ''x'' @ [LF] @ js ''y'' @ [DQ] @ js '',z'' @ [LF] @ js ''#c'' @ [LF] @ js ''  ''
           @ [LF, DQ, DQ, LF] @ js ''c,'' @ [DQ] @ js ''d'' @ [DQ, DQ] @ js ''e'' @ [DQ, LF]
           @ js ''f,'' @ [DQ] @ js ''g'')
       = [[js ''x'' @ [LF] @ js ''y'', js ''z''], [js ''c'', js ''d'' @ [DQ] @ js ''e''],
          [js ''f'', DQ # js ''g'']]
   \<and> length (tokenize defaults
        (DQ # js ''x'' @ [LF] @ js ''y'' @ [DQ] @ js '',z'' @ [LF] @ js ''#c'' @ [LF] @ js ''  ''
           @ [LF, DQ, DQ, LF] @ js ''c,'' @ [DQ] @ js ''d'' @ [DQ, DQ] @ js ''e'' @ [DQ, LF]
           @ js ''f,'' @ [DQ] @ js ''g''))
       = length (filter (\<lambda>l. \<not> commentLine defaults l \<and> \<not> blankLine defaults l)
           [DQ # js ''x'' @ [LF] @ js ''y'' @ [DQ] @ js '',z'', js ''#c'', js ''  '', [DQ, DQ],
            js ''c,'' @ [DQ] @ js ''d'' @ [DQ, DQ] @ js ''e'' @ [DQ], js ''f,'' @ [DQ] @ js ''g''])"
proof -
  let ?d = "DQ # js ''x'' @ [LF] @ js ''y'' @ [DQ] @ js '',z'' @ [LF] @ js ''#c'' @ [LF] @ js ''  ''
              @ [LF, DQ, DQ, LF] @ js ''c,'' @ [DQ] @ js ''d'' @ [DQ, DQ] @ js ''e'' @ [DQ, LF]
              @ js ''f,'' @ [DQ] @ js ''g''"
  let ?ls = "[DQ # js ''x'' @ [LF] @ js ''y'' @ [DQ] @ js '',z'', js ''#c'', js ''  '', [DQ, DQ],
              js ''c,'' @ [DQ] @ js ''d'' @ [DQ, DQ] @ js ''e'' @ [DQ], js ''f,'' @ [DQ] @ js ''g'']"
  have ls: "logicalLines False [] (normalizeEOL (stripBOM ?d)) = ?ls"
    by code_simp
  have wf: "list_all (wellFormedLine defaults) ?ls"
    by code_simp
  have delim: "delimiter_of defaults \<noteq> [LF]" "delimiter_of defaults \<noteq> [DQ]"
    by (simp_all add: delimiter_of_def defaults_def js_def)
  have tk: "tokenize defaults ?d
              = [[js ''x'' @ [LF] @ js ''y'', js ''z''], [js ''c'', js ''d'' @ [DQ] @ js ''e''],
                 [js ''f'', DQ # js ''g'']]"
    by code_simp
  from wf have wf': "list_all (wellFormedLine defaults) (logicalLines False [] (normalizeEOL (stripBOM ?d)))"
    unfolding ls .
  from row_count_well_formed [OF wf' delim] ls wf delim tk show ?thesis
    by (simp only: simp_thms)
qed

text \<open>
  The invariant as the spec states it fails. A NUL character ends a row but no line:
  \<open>a\<close>, NUL, \<open>b\<close> is one logical line and gives two rows. The line \<open> #x\<close> does not start
  with the comment character and is not blank, and the line \<open>""\<close> is not blank; both are
  dropped, the first because its first field, trimmed, starts with the comment character
  and the second because its only field has the empty value. A quote inside an unquoted
  field opens no quoted region for the parser: \<open>a"b\<close>, newline, \<open>c"d\<close> is one quote-aware
  line and gives two rows. The skip of a comment line does not look at quotes: \<open>#"\<close>,
  newline, \<open>b"\<close> is one quote-aware line, a comment line, and gives the row of the field
  \<open>b"\<close>. When the delimiter is the newline, a newline ends a field and no row: \<open>a\<close>,
  newline, \<open>b\<close> is two lines and gives one row. When the delimiter is the double quote,
  no quote opens a quoted field: \<open>a"b\<close>, newline, \<open>c"d\<close> gives two rows.
\<close>

theorem row_count_counterexample:
  "length (tokenize defaults (js ''a'' @ [NUL] @ js ''b'')) = 2
   \<and> specRowCount defaults (js ''a'' @ [NUL] @ js ''b'') = 1
   \<and> length (tokenize defaults (js '' #x'')) = 0
   \<and> specRowCount defaults (js '' #x'') = 1
   \<and> length (tokenize defaults [DQ, DQ]) = 0
   \<and> specRowCount defaults [DQ, DQ] = 1
   \<and> length (tokenize defaults (js ''a'' @ [DQ] @ js ''b'' @ [LF] @ js ''c'' @ [DQ] @ js ''d'')) = 2
   \<and> specRowCount defaults (js ''a'' @ [DQ] @ js ''b'' @ [LF] @ js ''c'' @ [DQ] @ js ''d'') = 1
   \<and> length (tokenize defaults (js ''#'' @ [DQ, LF] @ js ''b'' @ [DQ])) = 1
   \<and> specRowCount defaults (js ''#'' @ [DQ, LF] @ js ''b'' @ [DQ]) = 0
   \<and> length (tokenize (defaults\<lparr>delimiter := Some [LF]\<rparr>) (js ''a'' @ [LF] @ js ''b'')) = 1
   \<and> specRowCount (defaults\<lparr>delimiter := Some [LF]\<rparr>) (js ''a'' @ [LF] @ js ''b'') = 2
   \<and> length (tokenize (defaults\<lparr>delimiter := Some [DQ]\<rparr>)
               (js ''a'' @ [DQ] @ js ''b'' @ [LF] @ js ''c'' @ [DQ] @ js ''d'')) = 2
   \<and> specRowCount (defaults\<lparr>delimiter := Some [DQ]\<rparr>)
         (js ''a'' @ [DQ] @ js ''b'' @ [LF] @ js ''c'' @ [DQ] @ js ''d'') = 1"
  by code_simp

section \<open>An exception from the generated headers\<close>

lemma splitWhen_repeated_line:
  "x \<noteq> LF \<Longrightarrow> splitWhen (\<lambda>c. c = LF) [] (concat (replicate n [x, LF])) = replicate n [x] @ [[]]"
  by (induction n) auto

lemma lineRows_Nil: "lineRows opts [] = []"
  by (simp add: lineRows_def fieldValue_def)

lemma tokenize_repeated_line:
  assumes "lineRows opts (js ''a'') = [[js ''a'']]"
    and "delimiter_of opts \<noteq> [LF]" "commentChar_of opts \<noteq> [LF]"
  shows "tokenize opts (concat (replicate n (js ''a'' @ [LF]))) = replicate n [js ''a'']"
proof -
  let ?d = "concat (replicate n (js ''a'' @ [LF]))"
  have a: "js ''a'' @ [LF] = [0x61, LF]"
    by (simp add: js_def)
  have plain: "\<forall>c\<in>set ?d. c \<noteq> NUL \<and> c \<noteq> DQ"
    unfolding a by auto
  have "CR \<notin> set ?d"
    unfolding a by auto
  moreover have "stripBOM ?d = ?d"
    unfolding a by (cases n) (simp_all add: stripBOM_def)
  ultimately have d: "normalizeEOL (stripBOM ?d) = ?d"
    by (simp add: normalizeEOL_no_CR)
  have "splitWhen (\<lambda>c. c = LF) [] ?d = replicate n (js ''a'') @ [[]]"
    unfolding a using splitWhen_repeated_line [of "0x61" n] by (simp add: js_def)
  then have "tokenize opts ?d = concat (map (lineRows opts) (replicate n (js ''a'') @ [[]]))"
    unfolding tokenize_quote_free [OF plain assms(2,3)] d by simp
  also have "\<dots> = concat (replicate n [[js ''a'']])"
    using assms(1) by (simp add: lineRows_Nil)
  also have "\<dots> = replicate n [js ''a'']"
    by (induction n) simp_all
  finally show ?thesis .
qed

lemma parseCSV_returns:
  assumes "hasHeader_of opts \<or> length (tokenize opts data) \<le> argLimit"
  shows "\<exists>recs. parseCSV argLimit opts data = Inr recs"
  using assms by (auto simp: parseCSV_def maxLen_def Let_def)

text \<open>
  C1. The claim says that \<open>parseCSV\<close> never raises an exception. With \<open>hasHeader\<close> set to
  \<open>false\<close> and an input of more rows than the engine accepts arguments in one call, here the
  line \<open>a\<close> repeated \<open>argLimit + 1\<close> times, line 177 raises a \<open>RangeError\<close>. With a header
  row the same input is parsed: that path does not spread the rows.
\<close>

theorem parseCSV_raises_RangeError:
  "parseCSV argLimit (defaults\<lparr>hasHeader := Some False\<rparr>)
      (concat (replicate (Suc argLimit) (js ''a'' @ [LF]))) = Inl RangeError
   \<and> parseCSV argLimit defaults (concat (replicate (Suc argLimit) (js ''a'' @ [LF])))
       = Inr (replicate argLimit [js ''a'' \<mapsto> js ''a''])"
proof -
  let ?d = "concat (replicate (Suc argLimit) (js ''a'' @ [LF]))"
  let ?opts = "defaults\<lparr>hasHeader := Some False\<rparr>"
  have "lineRows ?opts (js ''a'') = [[js ''a'']]"
    by code_simp
  moreover have "delimiter_of ?opts \<noteq> [LF]" "commentChar_of ?opts \<noteq> [LF]"
    by (simp_all add: delimiter_of_def commentChar_of_def defaults_def js_def)
  ultimately have tk: "tokenize ?opts ?d = replicate (Suc argLimit) [js ''a'']"
    by (rule tokenize_repeated_line)
  have raises: "parseCSV argLimit ?opts ?d = Inl RangeError"
    unfolding parseCSV_def tk Let_def hasHeader_of_False by (simp add: maxLen_def)
  have "lineRows defaults (js ''a'') = [[js ''a'']]"
    by code_simp
  moreover have "delimiter_of defaults \<noteq> [LF]" "commentChar_of defaults \<noteq> [LF]"
    by (simp_all add: delimiter_of_def commentChar_of_def defaults_def js_def)
  ultimately have tk': "tokenize defaults ?d = replicate (Suc argLimit) [js ''a'']"
    by (rule tokenize_repeated_line)
  have obj: "buildObj [js ''a''] [js ''a''] = [js ''a'' \<mapsto> js ''a'']"
    by (simp add: buildObj_def obj_set_def js_at_def js_def)
  have "parseCSV argLimit defaults ?d = Inr (replicate argLimit [js ''a'' \<mapsto> js ''a''])"
    unfolding parseCSV_def tk' Let_def by (simp add: hasHeader_of_defaults obj)
  with raises show ?thesis
    by simp
qed

section \<open>A single unquoted field\<close>

lemma js_trim_stripBOM [simp]: "js_trim (stripBOM v) = js_trim v"
  by (cases v) (auto simp: stripBOM_def js_trim_def isWhiteSpace_def)

lemma tokenize_single_line:
  assumes "\<forall>c\<in>set data. c \<noteq> LF \<and> c \<noteq> CR \<and> c \<noteq> NUL \<and> c \<noteq> DQ"
  shows "tokenize opts data = lineRows opts (stripBOM data)"
proof -
  from assms have "CR \<notin> set (stripBOM data)"
    using set_stripBOM [of data] by auto
  then have d: "normalizeEOL (stripBOM data) = stripBOM data"
    by (rule normalizeEOL_no_CR)
  from assms have "\<forall>c\<in>set (stripBOM data). c \<noteq> LF \<and> c \<noteq> NUL \<and> c \<noteq> DQ"
    using set_stripBOM [of data] by auto
  from finish_last_line [OF this, of opts "[]" 0 1] show ?thesis
    by (simp add: tokenize_rows d scan_lscan init_lineState)
qed

text \<open>
  C3, as amended. Let \<open>v\<close> contain no delimiter, no newline and no double quote, and also no
  carriage return and no NUL; let \<open>v\<close> not be empty or all whitespace; let neither \<open>v\<close> (after
  a leading byte-order mark) nor \<open>v\<close> trimmed begin with the comment character; and let \<open>v\<close>
  not begin with a byte-order mark when \<open>trim\<close> is off. Then the input \<open>v\<close> gives exactly one
  row with exactly one field: \<open>v\<close> trimmed when \<open>trim\<close> is on, \<open>v\<close> itself when it is off.
\<close>

theorem single_field_round_trip:
  assumes claim: "\<forall>c\<in>set v. [c] \<noteq> delimiter_of opts \<and> c \<noteq> LF \<and> c \<noteq> DQ"
    and ends: "CR \<notin> set v" "NUL \<notin> set v"
    and nonblank: "js_trim v \<noteq> []"
    and nocomment: "\<not> startsWith (js_trim v) (commentChar_of opts)"
       "[hd (stripBOM v)] \<noteq> commentChar_of opts"
    and bom: "trim_of opts \<or> hd v \<noteq> BOM"
  shows "tokenize opts v = [[if trim_of opts then js_trim v else v]]"
proof -
  let ?v = "stripBOM v"
  from claim ends have "\<forall>c\<in>set v. c \<noteq> LF \<and> c \<noteq> CR \<and> c \<noteq> NUL \<and> c \<noteq> DQ"
    by auto
  then have tk: "tokenize opts v = lineRows opts ?v"
    by (rule tokenize_single_line)
  from claim set_stripBOM [of v] have nodelim: "\<forall>c\<in>set ?v. \<not> [c] = delimiter_of opts"
    by auto
  from claim set_stripBOM [of v] have noDQ: "DQ \<notin> set ?v"
    by auto
  have fs: "splitWhen (\<lambda>c. [c] = delimiter_of opts) [] ?v = [?v]"
    using nodelim by (simp add: splitWhen_none)
  have val: "fieldValue opts False ?v = (if trim_of opts then js_trim v else ?v)"
    using noDQ by (simp add: fieldValue_no_DQ)
  have keep: "\<not> discards opts [fieldValue opts False ?v]"
    using nonblank nocomment(1) js_trim_fieldValue [OF noDQ, of opts]
    by (auto simp: discards_def)
  have "lineRows opts ?v = [[fieldValue opts False ?v]]"
    using nocomment(2) keep by (simp add: lineRows_def fs)
  moreover have "\<not> trim_of opts \<Longrightarrow> ?v = v"
    using bom by (cases v) (auto simp: stripBOM_def)
  ultimately show ?thesis
    using tk val by auto
qed

theorem single_field_round_trip_witness:
  "DQ \<notin> set (js '' hello '') \<and> LF \<notin> set (js '' hello '') \<and> CR \<notin> set (js '' hello '')
   \<and> NUL \<notin> set (js '' hello '') \<and> js_trim (js '' hello '') = js ''hello''
   \<and> trim_of defaults
   \<and> tokenize defaults (js '' hello '') = [[js ''hello'']]"
proof -
  let ?v = "js '' hello ''"
  have claim: "\<forall>c\<in>set ?v. [c] \<noteq> delimiter_of defaults \<and> c \<noteq> LF \<and> c \<noteq> DQ"
    by (simp add: js_def delimiter_of_def defaults_def)
  have cr: "CR \<notin> set ?v" and nul: "NUL \<notin> set ?v" and dq: "DQ \<notin> set ?v"
    and lf: "LF \<notin> set ?v"
    by (simp_all add: js_def)
  have tr: "js_trim ?v = js ''hello''"
    by code_simp
  have nonblank: "js_trim ?v \<noteq> []"
    unfolding tr by (simp add: js_def)
  have nocomment: "\<not> startsWith (js_trim ?v) (commentChar_of defaults)"
    by code_simp
  have first: "[hd (stripBOM ?v)] \<noteq> commentChar_of defaults"
    by code_simp
  have on: "trim_of defaults"
    by (simp add: trim_of_def defaults_def)
  then have bom: "trim_of defaults \<or> hd ?v \<noteq> BOM"
    by simp
  from single_field_round_trip [OF claim cr nul nonblank nocomment first bom] on tr
  have "tokenize defaults ?v = [[js ''hello'']]"
    by simp
  with dq lf cr nul tr on show ?thesis
    by (simp only: simp_thms)
qed

text \<open>
  Without the added conditions the round trip fails: the input \<open>#x\<close> is skipped as a comment
  and the empty input has no row; \<open>a\<close>, NUL, \<open>b\<close> gives two rows; and with \<open>trim\<close> off a
  leading byte-order mark is removed from the field.
\<close>

theorem single_field_counterexample:
  "DQ \<notin> set (js ''#x'') \<and> LF \<notin> set (js ''#x'') \<and> 0x2C \<notin> set (js ''#x'')
   \<and> tokenize defaults (js ''#x'') = []
   \<and> tokenize defaults [] = []
   \<and> tokenize defaults (js ''a'' @ [NUL] @ js ''b'') = [[js ''a''], [js ''b'']]
   \<and> tokenize (defaults\<lparr>trim := Some False\<rparr>) (BOM # js ''a'') = [[js ''a'']]"
  by code_simp

section \<open>Comment lines\<close>

lemma lstep_core:
  assumes "core st = core st'"
  shows "core (lstep opts st cs) = core (lstep opts st' cs)"
    and "pos (lstep opts st cs) - pos st = pos (lstep opts st' cs) - pos st'"
  using assms
  by (auto simp: core_def lstep_def Let_def pushField_fieldValue pushRow_discards)

lemma lscan_core:
  "core st = core st' \<Longrightarrow> core (lscan opts st cs) = core (lscan opts st' cs)"
proof (induction opts st cs arbitrary: st' rule: lscan.induct)
  case (1 opts st cs)
  show ?case
  proof (cases "cs = []")
    case True
    with "1.prems" show ?thesis by simp
  next
    case False
    from lstep_core [OF "1.prems", of opts cs]
    have c: "core (lstep opts st cs) = core (lstep opts st' cs)"
      and p: "pos (lstep opts st cs) - pos st = pos (lstep opts st' cs) - pos st'"
      by simp_all
    from "1.IH" [OF False c]
    show ?thesis
      using False p by (subst lscan.simps, subst (2) lscan.simps) simp
  qed
qed

lemma rows_finish_core: "core st = core st' \<Longrightarrow> rows (finish opts st) = rows (finish opts st')"
  by (auto simp: core_def finish_def pushField_fieldValue pushRow_discards)

lemma tokenize_plain_start:
  assumes "CR \<notin> set d" "stripBOM d = d"
  shows "tokenize opts d = rows (finish opts (lscan opts init d))"
  using assms by (simp add: tokenize_rows normalizeEOL_no_CR scan_lscan init_lineState)

lemma comment_step:
  assumes "pos st < length d" "lineStart st" "[d ! pos st] = commentChar_of opts"
  shows "step opts d st =
           st\<lparr>pos := skipLine d (pos st) + 1, lineStart := True, curLineNum := curLineNum st + 1\<rparr>"
  using assms by (simp add: step_def)

lemma lstep_append:
  assumes "cs \<noteq> []" "last cs = LF"
  shows "lstep opts st (cs @ X) = lstep opts st cs"
proof -
  from assms obtain c cs' where cs: "cs = c # cs'"
    by (cases cs) auto
  from assms have "LF \<in> set cs"
    using last_in_set by metis
  then have tw: "takeWhile (\<lambda>x. x \<noteq> LF) (cs @ X) = takeWhile (\<lambda>x. x \<noteq> LF) cs"
    by (intro takeWhile_append1 [of LF]) auto
  have at: "c = DQ \<Longrightarrow> js_at (cs @ X) 1 = js_at cs 1"
    using assms cs by (cases cs') (auto simp: js_at_def nth_append)
  show ?thesis
    unfolding lstep_def tw using at cs by (auto simp: Let_def)
qed

lemma lstep_within:
  assumes "cs \<noteq> []" "last cs = LF"
  shows "pos (lstep opts st cs) - pos st \<le> length cs"
proof -
  from assms obtain c cs' where cs: "cs = c # cs'"
    by (cases cs) auto
  from assms have "LF \<in> set cs"
    using last_in_set by metis
  then have "length (takeWhile (\<lambda>x. x \<noteq> LF) cs) < length cs"
    by (induction cs) auto
  moreover have "js_at cs 1 = Some DQ \<Longrightarrow> 2 \<le> length cs"
    by (auto simp: js_at_def split: if_splits)
  ultimately show ?thesis
    using cs by (auto simp: lstep_def Let_def)
qed

lemma lscan_append:
  "cs = [] \<or> last cs = LF \<Longrightarrow> lscan opts st (cs @ X) = lscan opts (lscan opts st cs) X"
proof (induction opts st cs rule: lscan.induct)
  case (1 opts st cs)
  show ?case
  proof (cases "cs = []")
    case True
    then show ?thesis by simp
  next
    case False
    with "1.prems" have last: "last cs = LF"
      by simp
    let ?st' = "lstep opts st cs"
    let ?k = "pos ?st' - pos st"
    have k: "?k \<le> length cs"
      using False last by (rule lstep_within)
    have rest: "drop ?k cs = [] \<or> last (drop ?k cs) = LF"
      using last by (cases "?k < length cs") (auto simp: last_drop)
    have "lscan opts st (cs @ X) = lscan opts ?st' (drop ?k cs @ X)"
      using False k by (subst lscan.simps) (simp add: lstep_append [OF False last])
    also have "\<dots> = lscan opts (lscan opts ?st' (drop ?k cs)) X"
      using "1.IH" [OF False rest] .
    also have "lscan opts ?st' (drop ?k cs) = lscan opts st cs"
      using False by (subst (2) lscan.simps) simp
    finally show ?thesis .
  qed
qed


lemma stripBOM_id: "BOM \<notin> set d \<Longrightarrow> stripBOM d = d"
  by (cases d) (auto simp: stripBOM_def)

lemma comment_line_removed:
  assumes c: "[c] = commentChar_of opts" and line: "LF \<notin> set (c # l)"
    and pre: "pre = [] \<or> last pre = LF" and start: "lineStart (scan opts pre init)"
    and cr: "CR \<notin> set (pre @ c # l @ rest)" and bom: "BOM \<notin> set (pre @ c # l @ rest)"
  shows "tokenize opts (pre @ c # l @ LF # rest) = tokenize opts (pre @ rest)"
    and "tokenize opts (pre @ c # l) = tokenize opts pre"
proof -
  let ?S = "lscan opts init pre"
  let ?S' = "?S\<lparr>pos := pos ?S + length l + 2, lineStart := True, curLineNum := curLineNum ?S + 1\<rparr>"
  from start have ls: "lineStart ?S"
    by (simp add: scan_lscan init_def)
  then have same: "core ?S' = core ?S"
    by (simp add: core_def)
  have tok: "tokenize opts d = rows (finish opts (lscan opts init d))"
    if "CR \<notin> set d" "BOM \<notin> set d" for d
    using that by (intro tokenize_plain_start stripBOM_id)
  from cr bom have t1: "tokenize opts (pre @ c # l @ LF # rest)
                          = rows (finish opts (lscan opts init (pre @ c # l @ LF # rest)))"
    by (intro tok) auto
  from cr bom have t2: "tokenize opts (pre @ rest) = rows (finish opts (lscan opts init (pre @ rest)))"
    by (intro tok) auto
  from cr bom have t3: "tokenize opts (pre @ c # l) = rows (finish opts (lscan opts init (pre @ c # l)))"
    by (intro tok) auto
  from cr bom have t4: "tokenize opts pre = rows (finish opts (lscan opts init pre))"
    by (intro tok) auto
  have "lscan opts init (pre @ c # l @ LF # rest) = lscan opts ?S (c # l @ LF # rest)"
    using pre by (rule lscan_append)
  also have "\<dots> = lscan opts ?S' rest"
    by (rule lscan_comment_line(1) [OF ls c line])
  finally have a: "lscan opts init (pre @ c # l @ LF # rest) = lscan opts ?S' rest" .
  have b: "lscan opts init (pre @ rest) = lscan opts ?S rest"
    using pre by (rule lscan_append)
  have "rows (finish opts (lscan opts ?S' rest)) = rows (finish opts (lscan opts ?S rest))"
    by (intro rows_finish_core lscan_core same)
  then show "tokenize opts (pre @ c # l @ LF # rest) = tokenize opts (pre @ rest)"
    unfolding t1 t2 a b .
  have "lscan opts init (pre @ c # l) = lscan opts ?S (c # l)"
    using pre by (rule lscan_append)
  also have "\<dots> = ?S'"
    by (rule lscan_comment_line(2) [OF ls c line])
  finally have e: "lscan opts init (pre @ c # l) = ?S'" .
  have "rows (finish opts ?S') = rows (finish opts ?S)"
    by (intro rows_finish_core same)
  then show "tokenize opts (pre @ c # l) = tokenize opts pre"
    unfolding t3 t4 e .
qed

lemma pushRow_comment:
  assumes "row st \<noteq> []" "startsWith (js_trim (row st ! 0)) (commentChar_of opts)"
  shows "pushRow opts st = st\<lparr>row := []\<rparr>"
  using assms by (simp add: pushRow_def)

text \<open>
  C5. At a line start, a unit equal to the comment character makes the scan jump past the
  next newline and leaves the rows, the pending row and the pending field as they are.
  Taking a line that starts with the comment character out of an input (without carriage
  returns and byte-order marks) does not change the rows, wherever the parser reaches the
  line at a line start; \<open># comment\<close>, newline, \<open>a,b\<close>, newline gives the one row
  \<open>["a","b"]\<close>. And \<open>pushRow\<close> drops every row whose first field, trimmed, starts with the
  comment character, also when that field was quoted in the input: \<open>"#x",1\<close> gives no row.
\<close>

theorem comment_suppression:
  "(pos st < length d \<and> lineStart st \<and> [d ! pos st] = commentChar_of opts
      \<longrightarrow> step opts d st =
            st\<lparr>pos := skipLine d (pos st) + 1, lineStart := True, curLineNum := curLineNum st + 1\<rparr>
          \<and> skipLine d (pos st) = pos st + length (takeWhile (\<lambda>x. x \<noteq> LF) (drop (pos st) d)))
   \<and> ([c] = commentChar_of opts \<and> LF \<notin> set (c # l) \<and> (pre = [] \<or> last pre = LF)
        \<and> lineStart (scan opts pre init)
        \<and> CR \<notin> set (pre @ c # l @ rest) \<and> BOM \<notin> set (pre @ c # l @ rest)
      \<longrightarrow> tokenize opts (pre @ c # l @ LF # rest) = tokenize opts (pre @ rest)
          \<and> tokenize opts (pre @ c # l) = tokenize opts pre)
   \<and> (row st' \<noteq> [] \<and> startsWith (js_trim (row st' ! 0)) (commentChar_of opts)
      \<longrightarrow> pushRow opts st' = st'\<lparr>row := []\<rparr>)
   \<and> tokenize defaults (js ''# comment'' @ [LF] @ js ''a,b'' @ [LF]) = [[js ''a'', js ''b'']]
   \<and> tokenize defaults (DQ # js ''#x'' @ [DQ] @ js '',1'' @ [LF] @ js ''a,b'' @ [LF])
       = [[js ''a'', js ''b'']]"
proof -
  have ex1: "tokenize defaults (js ''# comment'' @ [LF] @ js ''a,b'' @ [LF]) = [[js ''a'', js ''b'']]"
    by code_simp
  have ex2: "tokenize defaults (DQ # js ''#x'' @ [DQ] @ js '',1'' @ [LF] @ js ''a,b'' @ [LF])
               = [[js ''a'', js ''b'']]"
    by code_simp
  show ?thesis
    using comment_step [of st d opts] skipLine_takeWhile [of d "pos st"]
      comment_line_removed [of c opts l pre rest] pushRow_comment [of st' opts] ex1 ex2
    by blast
qed

theorem comment_suppression_witness:
  "step defaults (js ''#c'' @ [LF] @ js ''a'') init = init\<lparr>pos := 3, lineStart := True, curLineNum := 2\<rparr>
   \<and> lineStart (scan defaults (js ''a,b'' @ [LF]) init)
   \<and> tokenize defaults (js ''a,b'' @ [LF] @ js ''#c,d'' @ [LF] @ js ''e'')
       = tokenize defaults (js ''a,b'' @ [LF] @ js ''e'')
   \<and> tokenize defaults (js ''a,b'' @ [LF] @ js ''e'') = [[js ''a'', js ''b''], [js ''e'']]
   \<and> tokenize defaults (js ''a,b'' @ [LF] @ js ''#c,d'') = tokenize defaults (js ''a,b'' @ [LF])
   \<and> pushRow defaults (init\<lparr>row := [js '' #x'', js ''1'']\<rparr>) = init\<lparr>row := []\<rparr>"
proof -
  let ?d = "js ''#c'' @ [LF] @ js ''a''"
  let ?pre = "js ''a,b'' @ [LF]"
  let ?st = "init\<lparr>row := [js '' #x'', js ''1'']\<rparr>"
  have h1: "pos init < length ?d \<and> lineStart init \<and> [?d ! pos init] = commentChar_of defaults"
    by (simp add: init_def js_def commentChar_of_def defaults_def)
  have sk: "pos init + length (takeWhile (\<lambda>x. x \<noteq> LF) (drop (pos init) ?d)) + 1 = 3"
    by (simp add: init_def js_def)
  have start: "lineStart (scan defaults ?pre init)"
    by code_simp
  have h2: "[0x23] = commentChar_of defaults \<and> LF \<notin> set (0x23 # js ''c,d'')
             \<and> (?pre = [] \<or> last ?pre = LF)
             \<and> CR \<notin> set (?pre @ 0x23 # js ''c,d'' @ js ''e'')
             \<and> BOM \<notin> set (?pre @ 0x23 # js ''c,d'' @ js ''e'')"
    by (simp add: js_def commentChar_of_def defaults_def)
  have h3: "row ?st \<noteq> [] \<and> startsWith (js_trim (row ?st ! 0)) (commentChar_of defaults)"
    by code_simp
  have lit: "js ''#c,d'' = 0x23 # js ''c,d''"
    by (simp add: js_def)
  have rows: "tokenize defaults (?pre @ js ''e'') = [[js ''a'', js ''b''], [js ''e'']]"
    by code_simp
  from comment_suppression [of init ?d defaults "0x23" "js ''c,d''" ?pre "js ''e''" ?st]
    h1 h2 h3 start
  have "step defaults ?d init
          = init\<lparr>pos := skipLine ?d (pos init) + 1, lineStart := True, curLineNum := curLineNum init + 1\<rparr>"
    and "skipLine ?d (pos init) = pos init + length (takeWhile (\<lambda>x. x \<noteq> LF) (drop (pos init) ?d))"
    and "tokenize defaults (?pre @ 0x23 # js ''c,d'' @ LF # js ''e'') = tokenize defaults (?pre @ js ''e'')"
    and "tokenize defaults (?pre @ 0x23 # js ''c,d'') = tokenize defaults ?pre"
    and "pushRow defaults ?st = ?st\<lparr>row := []\<rparr>"
    by blast+
  with sk start rows show ?thesis
    unfolding lit by (simp add: init_def)
qed

section \<open>An unterminated quote at the end of the input\<close>

lemma js_trim_empty_iff: "js_trim s = [] \<longleftrightarrow> (\<forall>c\<in>set s. isWhiteSpace c)"
proof
  assume "js_trim s = []"
  then have all: "\<forall>x\<in>set (dropWhile isWhiteSpace s). isWhiteSpace x"
    by (simp add: js_trim_def dropWhile_eq_Nil_conv)
  have "dropWhile isWhiteSpace s = []"
  proof (rule ccontr)
    assume ne: "dropWhile isWhiteSpace s \<noteq> []"
    then have "\<not> isWhiteSpace (hd (dropWhile isWhiteSpace s))"
      by (rule hd_dropWhile)
    with all ne show False
      using hd_in_set by blast
  qed
  then show "\<forall>c\<in>set s. isWhiteSpace c"
    by (simp add: dropWhile_eq_Nil_conv)
next
  assume "\<forall>c\<in>set s. isWhiteSpace c"
  then show "js_trim s = []"
    by (auto simp: js_trim_def dest: set_dropWhileD)
qed

lemma not_ws_DQ [simp]: "\<not> isWhiteSpace DQ"
  by (simp add: isWhiteSpace_def)

text \<open>
  C9, as amended. If the input ends while a quoted field is still open, and the buffer does
  not end with a double quote (it does when the last units were an escaped pair), the
  buffer starts with the opening quote and is pushed as it is, untrimmed and with the quote
  retained; unless the first field of the last row, trimmed, starts with the comment
  character, the rows are those before, followed by the pending row with that field. The
  input \<open>a,"bc\<close> with \<open>hasHeader = false\<close> gives one record whose second field is \<open>"bc\<close>.
\<close>

theorem unterminated_quote:
  assumes st: "st = scan opts (normalizeEOL (stripBOM data)) init" and "open": "inQuotes st"
    and tail: "\<not> (2 \<le> length (field st) \<and> last (field st) = DQ)"
    and kept: "\<not> startsWith (js_trim (hd (row st @ [field st]))) (commentChar_of opts)"
  shows "field st \<noteq> [] \<and> hd (field st) = DQ
         \<and> pushField opts st = st\<lparr>row := row st @ [field st], field := []\<rparr>
         \<and> tokenize opts data = rows st @ [row st @ [field st]]"
proof -
  have "reachable st"
    unfolding st by (rule reachable_scan)
  with "open" have ne: "field st \<noteq> []" and dq: "hd (field st) = DQ"
    by (simp_all add: reachable_def)
  from tail have val: "fieldValue opts True (field st) = field st"
    by (auto simp: fieldValue_def endsWith_DQ)
  with "open" have pf: "pushField opts st = st\<lparr>row := row st @ [field st], field := []\<rparr>"
    by (simp add: pushField_fieldValue)
  from ne dq have "DQ \<in> set (field st)"
    using hd_in_set by force
  then have ntr: "js_trim (field st) \<noteq> []"
    using js_trim_empty_iff [of "field st"] not_ws_DQ by blast
  have r0: "(row st @ [field st]) ! 0 = hd (row st @ [field st])"
    by (simp add: hd_conv_nth)
  have "\<not> discards opts (row st @ [field st])"
    unfolding discards_def r0 using kept ne ntr by (cases "row st") auto
  then have "rows (pushRow opts (pushField opts st)) = rows st @ [row st @ [field st]]"
    by (simp add: pf pushRow_discards)
  with ne have "rows (finish opts st) = rows st @ [row st @ [field st]]"
    by (simp add: finish_def)
  then have "tokenize opts data = rows st @ [row st @ [field st]]"
    by (simp add: tokenize_rows st)
  with ne dq pf show ?thesis
    by simp
qed

theorem unterminated_quote_witness:
  "scan (defaults\<lparr>hasHeader := Some False\<rparr>)
      (normalizeEOL (stripBOM (js ''a,'' @ [DQ] @ js ''bc''))) init
     = \<lparr>rows = [], row = [js ''a''], field = DQ # js ''bc'', inQuotes = True, pos = 5,
        lineStart = False, curLineNum = 1\<rparr>
   \<and> tokenize (defaults\<lparr>hasHeader := Some False\<rparr>) (js ''a,'' @ [DQ] @ js ''bc'')
     = [[js ''a'', DQ # js ''bc'']]
   \<and> (\<forall>argLimit.
          parseCSV (Suc argLimit) (defaults\<lparr>hasHeader := Some False\<rparr>) (js ''a,'' @ [DQ] @ js ''bc'')
            = Inr [[js ''field1'' \<mapsto> js ''a'', js ''field2'' \<mapsto> DQ # js ''bc'']])"
proof -
  let ?opts = "defaults\<lparr>hasHeader := Some False\<rparr>"
  let ?d = "js ''a,'' @ [DQ] @ js ''bc''"
  let ?st = "\<lparr>rows = [], row = [js ''a''], field = DQ # js ''bc'', inQuotes = True, pos = 5,
               lineStart = False, curLineNum = 1\<rparr>"
  have st: "?st = scan ?opts (normalizeEOL (stripBOM ?d)) init"
    by code_simp
  have "open": "inQuotes ?st"
    by simp
  have tail: "\<not> (2 \<le> length (field ?st) \<and> last (field ?st) = DQ)"
    by (simp add: js_def)
  have kept: "\<not> startsWith (js_trim (hd (row ?st @ [field ?st]))) (commentChar_of ?opts)"
    by code_simp
  from unterminated_quote [OF st "open" tail kept]
  have tk: "tokenize ?opts ?d = [[js ''a'', DQ # js ''bc'']]"
    by simp
  have ml: "maxLen (Suc argLimit) [[js ''a'', DQ # js ''bc'']] = Inr 2" for argLimit
    by (simp add: maxLen_def)
  have gh: "genHeaders 2 = [js ''field1'', js ''field2'']"
    by code_simp
  have "parseCSV (Suc argLimit) ?opts ?d
          = Inr [[js ''field1'' \<mapsto> js ''a'', js ''field2'' \<mapsto> DQ # js ''bc'']]" for argLimit
    unfolding parseCSV_def tk Let_def hasHeader_of_False ml sum.case gh
    by (simp add: buildObj_def obj_set_def js_at_def js_def upt_rec)
  with st [symmetric] tk show ?thesis
    by (simp only: simp_thms)
qed

text \<open>
  Without the condition on the end of the buffer the quote is not retained: the input
  \<open>"a""\<close> ends inside the quoted field with the buffer \<open>"a"\<close>, and the field pushed is
  \<open>a\<close>.
\<close>

theorem unterminated_quote_counterexample:
  "inQuotes (scan defaults (normalizeEOL (stripBOM (DQ # js ''a'' @ [DQ, DQ]))) init)
   \<and> field (scan defaults (normalizeEOL (stripBOM (DQ # js ''a'' @ [DQ, DQ]))) init)
       = DQ # js ''a'' @ [DQ]
   \<and> tokenize defaults (DQ # js ''a'' @ [DQ, DQ]) = [[js ''a'']]"
  by code_simp

section \<open>splitCSVLines\<close>

lemma splitLoop_marks:
  "splitLoop d k ls cur q
     = ls @ filter (\<lambda>l. js_trim l \<noteq> []) (pieces (lineMarks q (drop k d)) cur)"
proof (induction d k ls cur q rule: splitLoop.induct)
  case (1 d k ls cur q)
  show ?case
  proof (cases "k < length d")
    case False
    then show ?thesis
      by (subst splitLoop.simps) simp
  next
    case True
    then have dk: "drop k d = d ! k # drop (Suc k) d"
      by (simp add: Cons_nth_drop_Suc)
    have look: "js_at d (Suc k) = Some x \<longleftrightarrow> drop (Suc k) d \<noteq> [] \<and> hd (drop (Suc k) d) = x" for x
      by (auto simp: js_at_def hd_drop_conv_nth)
    have tl: "tl (drop (Suc k) d) = drop (k + 2) d"
      by (simp add: drop_Suc tl_drop)
    show ?thesis
    proof (cases "d ! k = DQ")
      case dq: True
      show ?thesis
      proof (cases "q \<and> js_at d (k + 1) = Some DQ")
        case esc: True
        with True dq "1.IH"(1) [OF True refl dq esc] show ?thesis
          by (subst splitLoop.simps) (auto simp: dk look tl)
      next
        case noesc: False
        with True dq "1.IH"(2) [OF True refl dq noesc] show ?thesis
          by (subst splitLoop.simps) (auto simp: dk look)
      qed
    next
      case nodq: False
      show ?thesis
      proof (cases "(d ! k = LF \<or> d ! k = CR) \<and> \<not> q")
        case brk: True
        with True nodq "1.IH"(3) [OF True refl nodq brk] show ?thesis
          by (subst splitLoop.simps) (auto simp: dk look tl)
      next
        case plain: False
        with True nodq "1.IH"(4) [OF True refl nodq plain] show ?thesis
          by (subst splitLoop.simps) (auto simp: dk)
      qed
    qed
  qed
qed

lemma pieces_marks_plain:
  "DQ \<notin> set d \<Longrightarrow> CR \<notin> set d
     \<Longrightarrow> pieces (lineMarks False d) acc = splitWhen (\<lambda>c. c = LF) acc d"
  by (induction d arbitrary: acc) auto

text \<open>
  C8. \<open>splitCSVLines\<close> returns the lines between the line boundaries of its input, without
  those that are empty or all whitespace, and with the line after the last boundary when it
  is not blank. The boundaries are the unquoted \<open>\n\<close> and \<open>\r\<close>, an unquoted \<open>\r\n\<close> being
  one boundary; a newline inside an open quoted region stays in its line (and a doubled
  quote inside a quoted region is kept as one quote, line 205). No line returned is blank,
  and on an input without quotes and carriage returns the lines are the non-blank pieces
  between the newlines.
\<close>

theorem splitCSVLines_spec:
  "splitCSVLines data = specSplitLines data
   \<and> filter (\<lambda>l. js_trim l = []) (splitCSVLines data) = []
   \<and> (DQ \<notin> set data \<and> CR \<notin> set data
        \<longrightarrow> splitCSVLines data
              = filter (\<lambda>l. js_trim l \<noteq> []) (splitWhen (\<lambda>c. c = LF) [] data))
   \<and> splitCSVLines (js ''a'' @ [CR, LF] @ js ''b'' @ [LF, LF, DQ] @ js ''x'' @ [LF] @ js ''y''
                       @ [DQ, CR] @ js ''z'')
       = [js ''a'', js ''b'', DQ # js ''x'' @ [LF] @ js ''y'' @ [DQ], js ''z'']"
proof -
  have spec: "splitCSVLines data = specSplitLines data"
    by (simp add: splitCSVLines_def specSplitLines_def splitLoop_marks)
  have noblank: "filter (\<lambda>l. js_trim l = []) (splitCSVLines data) = []"
    unfolding spec specSplitLines_def by (simp add: filter_empty_conv)
  have plain: "splitCSVLines data
                 = filter (\<lambda>l. js_trim l \<noteq> []) (splitWhen (\<lambda>c. c = LF) [] data)"
    if "DQ \<notin> set data" "CR \<notin> set data"
    unfolding spec specSplitLines_def using that by (simp add: pieces_marks_plain)
  have example: "splitCSVLines (js ''a'' @ [CR, LF] @ js ''b'' @ [LF, LF, DQ] @ js ''x'' @ [LF]
                    @ js ''y'' @ [DQ, CR] @ js ''z'')
       = [js ''a'', js ''b'', DQ # js ''x'' @ [LF] @ js ''y'' @ [DQ], js ''z'']"
    by code_simp
  from spec noblank plain example show ?thesis
    by blast
qed

theorem splitCSVLines_spec_witness:
  "DQ \<notin> set (js ''a'' @ [LF] @ js ''  '' @ [LF] @ js ''b'')
   \<and> CR \<notin> set (js ''a'' @ [LF] @ js ''  '' @ [LF] @ js ''b'')
   \<and> splitWhen (\<lambda>c. c = LF) [] (js ''a'' @ [LF] @ js ''  '' @ [LF] @ js ''b'')
       = [js ''a'', js ''  '', js ''b'']
   \<and> splitCSVLines (js ''a'' @ [LF] @ js ''  '' @ [LF] @ js ''b'') = [js ''a'', js ''b'']"
proof -
  let ?d = "js ''a'' @ [LF] @ js ''  '' @ [LF] @ js ''b''"
  have dq: "DQ \<notin> set ?d" and cr: "CR \<notin> set ?d"
    by (simp_all add: js_def)
  have sp: "splitWhen (\<lambda>c. c = LF) [] ?d = [js ''a'', js ''  '', js ''b'']"
    by (simp add: js_def)
  have keep: "filter (\<lambda>l. js_trim l \<noteq> []) [js ''a'', js ''  '', js ''b''] = [js ''a'', js ''b'']"
    by code_simp
  from splitCSVLines_spec [of ?d] dq cr
  have "splitCSVLines ?d = filter (\<lambda>l. js_trim l \<noteq> []) (splitWhen (\<lambda>c. c = LF) [] ?d)"
    by blast
  with dq cr sp keep show ?thesis
    by (simp only: simp_thms)
qed

section \<open>Escaped quotes are collapsed twice\<close>

lemma lscan_quoted_run:
  "DQ \<notin> set v \<Longrightarrow>
   lscan opts \<lparr>rows = rs, row = r, field = f, inQuotes = True, pos = p, lineStart = False,
               curLineNum = n\<rparr> (v @ rest)
     = lscan opts \<lparr>rows = rs, row = r, field = f @ v, inQuotes = True, pos = p + length v,
                   lineStart = False, curLineNum = n + length (filter (\<lambda>c. c = LF) v)\<rparr> rest"
proof (induction v arbitrary: f p n)
  case Nil
  show ?case by simp
next
  case (Cons c v)
  then have c: "c \<noteq> DQ" and v: "DQ \<notin> set v"
    by auto
  have "lscan opts \<lparr>rows = rs, row = r, field = f, inQuotes = True, pos = p, lineStart = False,
               curLineNum = n\<rparr> ((c # v) @ rest)
        = lscan opts \<lparr>rows = rs, row = r, field = f @ [c], inQuotes = True, pos = p + 1,
               lineStart = False, curLineNum = n + (if c = LF then 1 else 0)\<rparr> (v @ rest)"
    using c by (simp add: lscan_Cons lstep_def)
  also note Cons.IH [OF v]
  finally show ?case
    by simp
qed

lemma lscan_escaped_pair:
  "lscan opts \<lparr>rows = rs, row = r, field = f, inQuotes = True, pos = p, lineStart = False,
               curLineNum = n\<rparr> (DQ # DQ # rest)
     = lscan opts \<lparr>rows = rs, row = r, field = f @ [DQ], inQuotes = True, pos = p + 2,
                   lineStart = False, curLineNum = n\<rparr> rest"
  by (simp add: lscan_Cons lstep_def js_at_def)

lemma lscan_closing_quote:
  "lscan opts \<lparr>rows = rs, row = r, field = f, inQuotes = True, pos = p, lineStart = False,
               curLineNum = n\<rparr> [DQ]
     = \<lparr>rows = rs, row = r, field = f @ [DQ], inQuotes = False, pos = p + 1,
        lineStart = False, curLineNum = n\<rparr>"
  by (simp add: lscan_Cons lstep_def js_at_def)

lemma lscan_opening_quote:
  assumes "commentChar_of opts \<noteq> [DQ]" "delimiter_of opts \<noteq> [DQ]"
  shows "lscan opts init (DQ # rest)
     = lscan opts \<lparr>rows = [], row = [], field = [DQ], inQuotes = True, pos = 1,
                   lineStart = False, curLineNum = 1\<rparr> rest"
  using assms by (simp add: lscan_Cons lstep_def init_def)

lemma js_trim_quoted: "js_trim (DQ # s @ [DQ]) = DQ # s @ [DQ]"
  by (rule js_trim_id) simp_all

lemma replace_dqdq_no_DQ: "DQ \<notin> set s \<Longrightarrow> replace_dqdq s = s"
  by (induction s rule: replace_dqdq.induct) auto

lemma replace_dqdq_one_pair:
  assumes "DQ \<notin> set x" "DQ \<notin> set y"
  shows "replace_dqdq (x @ [DQ, DQ] @ y) = x @ [DQ] @ y"
  using assms by (induction x rule: replace_dqdq.induct) (auto simp: replace_dqdq_no_DQ)

lemma fieldValue_quoted: "fieldValue opts False (DQ # inner @ [DQ]) = replace_dqdq inner"
  by (simp add: fieldValue_def js_trim_quoted startsWith_def endsWith_def)

text \<open>
  C10. Inside a quoted field the scan already reduces every doubled quote to one quote, and
  the finalizer replaces doubled quotes once more. For texts \<open>x\<close> and \<open>y\<close> without quotes
  (and carriage returns), the lone quoted field \<open>"x""""y"\<close>, with two escaped quotes,
  leaves the buffer \<open>"x""y"\<close> after the scan and has the value \<open>x"y\<close>, not \<open>x""y\<close>
  (provided the quote is neither the delimiter nor the comment character, and the value
  is not dropped as a comment). In particular \<open>"a""""b"\<close> gives \<open>a"b\<close>.
\<close>

theorem escaped_quotes_collapsed_twice:
  assumes x: "DQ \<notin> set x" "CR \<notin> set x" and y: "DQ \<notin> set y" "CR \<notin> set y"
    and opts: "commentChar_of opts \<noteq> [DQ]" "delimiter_of opts \<noteq> [DQ]"
    and kept: "\<not> startsWith (js_trim (x @ [DQ] @ y)) (commentChar_of opts)"
  shows "field (scan opts (normalizeEOL (stripBOM (DQ # x @ [DQ, DQ, DQ, DQ] @ y @ [DQ]))) init)
           = DQ # x @ [DQ, DQ] @ y @ [DQ]
         \<and> tokenize opts (DQ # x @ [DQ, DQ, DQ, DQ] @ y @ [DQ]) = [[x @ [DQ] @ y]]
         \<and> tokenize opts (DQ # x @ [DQ, DQ, DQ, DQ] @ y @ [DQ]) \<noteq> [[x @ [DQ, DQ] @ y]]"
proof -
  let ?D = "DQ # x @ [DQ, DQ, DQ, DQ] @ y @ [DQ]"
  let ?end = "\<lparr>rows = [], row = [], field = DQ # x @ [DQ, DQ] @ y @ [DQ], inQuotes = False,
               pos = 1 + length x + 4 + length y + 1, lineStart = False,
               curLineNum = 1 + length (filter (\<lambda>c. c = LF) x) + length (filter (\<lambda>c. c = LF) y)\<rparr>"
  from x y have "CR \<notin> set ?D"
    by simp
  then have pre: "normalizeEOL (stripBOM ?D) = ?D"
    by (simp add: stripBOM_def normalizeEOL_no_CR)
  have "lscan opts init ?D = ?end"
    by (simp add: lscan_opening_quote [OF opts] lscan_quoted_run x y lscan_escaped_pair
        lscan_closing_quote)
  then have sc: "scan opts (normalizeEOL (stripBOM ?D)) init = ?end"
    unfolding pre scan_lscan by (simp add: init_def)
  have val: "fieldValue opts False (DQ # x @ [DQ, DQ] @ y @ [DQ]) = x @ [DQ] @ y"
    using fieldValue_quoted [of opts "x @ [DQ, DQ] @ y"] replace_dqdq_one_pair [OF x(1) y(1)]
    by simp
  have "DQ \<in> set (x @ [DQ] @ y)"
    by simp
  then have "js_trim (x @ [DQ] @ y) \<noteq> []"
    using js_trim_empty_iff [of "x @ [DQ] @ y"] not_ws_DQ by blast
  with kept have "\<not> discards opts [x @ [DQ] @ y]"
    by (simp add: discards_def)
  then have "rows (finish opts ?end) = [[x @ [DQ] @ y]]"
    using val by (simp add: finish_def pushField_fieldValue pushRow_discards)
  then have tk: "tokenize opts ?D = [[x @ [DQ] @ y]]"
    unfolding tokenize_rows sc .
  have "field (scan opts (normalizeEOL (stripBOM ?D)) init) = DQ # x @ [DQ, DQ] @ y @ [DQ]"
    unfolding sc by simp
  moreover have "[[x @ [DQ] @ y]] \<noteq> [[x @ [DQ, DQ] @ y]]"
    by simp
  ultimately show ?thesis
    using tk by simp
qed

theorem escaped_quotes_collapsed_twice_witness:
  "field (scan defaults (normalizeEOL (stripBOM (DQ # js ''a'' @ [DQ, DQ, DQ, DQ] @ js ''b'' @ [DQ]))) init)
     = DQ # js ''a'' @ [DQ, DQ] @ js ''b'' @ [DQ]
   \<and> tokenize defaults (DQ # js ''a'' @ [DQ, DQ, DQ, DQ] @ js ''b'' @ [DQ])
     = [[js ''a'' @ [DQ] @ js ''b'']]
   \<and> tokenize defaults (DQ # js ''a'' @ [DQ, DQ, DQ, DQ] @ js ''b'' @ [DQ])
     \<noteq> [[js ''a'' @ [DQ, DQ] @ js ''b'']]
   \<and> (\<forall>argLimit.
          parseCSV (Suc argLimit) (defaults\<lparr>hasHeader := Some False\<rparr>)
            (DQ # js ''a'' @ [DQ, DQ, DQ, DQ] @ js ''b'' @ [DQ])
          = Inr [[js ''field1'' \<mapsto> js ''a'' @ [DQ] @ js ''b'']])"
proof -
  let ?d = "DQ # js ''a'' @ [DQ, DQ, DQ, DQ] @ js ''b'' @ [DQ]"
  have a: "DQ \<notin> set (js ''a'')" "CR \<notin> set (js ''a'')"
    and b: "DQ \<notin> set (js ''b'')" "CR \<notin> set (js ''b'')"
    by (simp_all add: js_def)
  have opts: "commentChar_of defaults \<noteq> [DQ]" "delimiter_of defaults \<noteq> [DQ]"
    by (simp_all add: commentChar_of_def delimiter_of_def defaults_def js_def)
  have kept: "\<not> startsWith (js_trim (js ''a'' @ [DQ] @ js ''b'')) (commentChar_of defaults)"
    by code_simp
  note general = escaped_quotes_collapsed_twice [OF a b opts kept]
  have tk: "tokenize (defaults\<lparr>hasHeader := Some False\<rparr>) ?d = [[js ''a'' @ [DQ] @ js ''b'']]"
    by code_simp
  have ml: "maxLen (Suc argLimit) [[js ''a'' @ [DQ] @ js ''b'']] = Inr 1" for argLimit
    by (simp add: maxLen_def)
  have gh: "genHeaders (Suc 0) = [js ''field1'']"
    by code_simp
  have recs: "parseCSV (Suc argLimit) (defaults\<lparr>hasHeader := Some False\<rparr>) ?d
                = Inr [[js ''field1'' \<mapsto> js ''a'' @ [DQ] @ js ''b'']]" for argLimit
    unfolding parseCSV_def tk Let_def hasHeader_of_False ml sum.case
    by (simp add: gh buildObj_def obj_set_def js_at_def js_def)
  from general recs show ?thesis
    by (intro conjI) blast+
qed

end
